theory Spec2Isabelle
  imports Main "HOL-Library.Word" "HOL-Library.Monad_Syntax"
begin

section \<open>Loop distribution (lib/Transforms/Scalar/LoopDistribute.cpp)\<close>

text \<open>
  A shallow embedding of the loop distribution pass.  Pointers to IR objects
  (instructions, basic blocks, loops) are addresses, modelled as natural
  numbers; the objects themselves live in an explicit store (\<open>ir\<close>).  A run of the
  pass that would trip an assertion or dereference a null pointer has the value
  \<open>None\<close>.
\<close>

subsection \<open>Data model\<close>

text \<open>A \<open>Value*\<close>: an instruction, a basic block, the undef constant of a type, or
  any other value (argument, constant, global).\<close>

datatype val = VInst nat | VBlock nat | VUndef nat | VConst nat

text \<open>The instruction classes the pass distinguishes with \<open>isa<>\<close>; \<open>OtherTerm\<close> is a
  terminator that is not a \<open>BranchInst\<close>.\<close>

datatype opcode = Load | Store | Br | PHI | OtherTerm | OtherInst

record instruction =
  opcode :: opcode
  operands :: "val list"
  incoming :: "nat list"
  ty :: nat
  parent :: nat
  noalias :: "nat list"
  alias_scope :: "nat list"

record loop =
  LBlocks :: "nat list"
  ParentLoop :: "nat option"
  SubLoops :: "nat list"

record ir =
  Insts :: "nat \<rightharpoonup> instruction"
  BBs :: "nat \<rightharpoonup> nat list"
  BBName :: "nat \<Rightarrow> string"
  Layout :: "nat list"
  IDom :: "nat \<rightharpoonup> nat option"
  LoopObjs :: "nat \<rightharpoonup> loop"
  TopLevelLoops :: "nat list"
  BBMap :: "nat \<rightharpoonup> nat"
  Fresh :: nat
  FreshMD :: nat

text \<open>\<open>MemoryDepChecker::Dependence\<close>: indices into the memory instructions, and
  whether the dependence type is possibly backward.\<close>

record Dependence =
  Source :: nat
  Destination :: nat
  isPossiblyBackward :: bool

text \<open>What the pass reads from \<open>LoopAccessInfo\<close> and its dependence checker, which are
  computed for the loop before the pass changes anything.  \<open>RuntimeCheckInsts\<close> are the
  instructions \<open>addRuntimeCheck\<close> emits, the last one being the check's result.\<close>

record LoopAccessInfo =
  canVectorizeMemory :: bool
  getInterestingDependences :: "Dependence list option"
  getMemoryInstructions :: "nat list"
  Pointers :: "(val \<times> bool) list"
  getInstructionsForAccess :: "val \<Rightarrow> bool \<Rightarrow> nat list"
  needsAnyChecking :: "int list \<Rightarrow> val list \<Rightarrow> bool"
  RuntimeCheckInsts :: "int list \<Rightarrow> val list \<Rightarrow> instruction list"
  blockNeedsPredication :: "nat \<Rightarrow> bool"

record InstPartition =
  Set :: "nat list"
  DepCycle :: bool
  OrigLoop :: nat
  ClonedLoop :: "nat option"
  ClonedLoopBlocks :: "nat list"
  VMap :: "val \<rightharpoonup> val"

record Entry =
  Inst :: nat
  NumUnsafeDependencesStartOrEnd :: "32 word"

subsection \<open>InstPartition\<close>

text \<open>\<open>SmallPtrSet::insert\<close> on the list that holds the set's elements.\<close>

definition set_insert :: "nat \<Rightarrow> nat list \<Rightarrow> nat list" where
  "set_insert x xs = (if x \<in> set xs then xs else xs @ [x])"

definition set_insert_range :: "nat list \<Rightarrow> nat list \<Rightarrow> nat list" where
  "set_insert_range ys xs = foldl (\<lambda>acc y. set_insert y acc) xs ys"

definition mkInstPartition :: "nat \<Rightarrow> nat \<Rightarrow> bool \<Rightarrow> InstPartition" where
  "mkInstPartition I L C =
     \<lparr>Set = set_insert I [], DepCycle = C, OrigLoop = L, ClonedLoop = None,
      ClonedLoopBlocks = [], VMap = Map.empty\<rparr>"

definition hasDepCycle :: "InstPartition \<Rightarrow> bool" where
  "hasDepCycle P = DepCycle P"

definition add :: "nat \<Rightarrow> InstPartition \<Rightarrow> InstPartition" where
  "add I P = P\<lparr>Set := set_insert I (Set P)\<rparr>"

definition empty_part :: "InstPartition \<Rightarrow> bool" where
  "empty_part P = (Set P = [])"

text \<open>\<open>P.moveTo(Other)\<close>: the pair of \<open>P\<close> and \<open>Other\<close> afterwards.\<close>

definition moveTo :: "InstPartition \<Rightarrow> InstPartition \<Rightarrow> InstPartition \<times> InstPartition" where
  "moveTo P Other =
     (P\<lparr>Set := []\<rparr>,
      Other\<lparr>Set := set_insert_range (Set P) (Set Other),
             DepCycle := (DepCycle Other \<or> DepCycle P)\<rparr>)"

subsection \<open>InstPartitionContainer: seeding and the adjacent merges\<close>

definition addToCyclicPartition :: "nat \<Rightarrow> nat \<Rightarrow> InstPartition list \<Rightarrow> InstPartition list" where
  "addToCyclicPartition L I PC =
     (if PC = [] \<or> \<not> hasDepCycle (last PC) then PC @ [mkInstPartition I L True]
      else butlast PC @ [add I (last PC)])"

definition addToNewNonCyclicPartition :: "nat \<Rightarrow> nat \<Rightarrow> InstPartition list \<Rightarrow> InstPartition list" where
  "addToNewNonCyclicPartition L I PC = PC @ [mkInstPartition I L False]"

text \<open>The inner loop of \<open>mergeAdjacentPartitionsIf\<close>: the first partition of the run
  and the list from the iterator's final position on.\<close>

fun mergeRun :: "(InstPartition \<Rightarrow> bool) \<Rightarrow> InstPartition \<Rightarrow> InstPartition list
    \<Rightarrow> InstPartition \<times> InstPartition list" where
  "mergeRun Predicate First [] = (First, [])"
| "mergeRun Predicate First (p # ps) =
     (if Predicate p then mergeRun Predicate (snd (moveTo p First)) ps
      else (First, p # ps))"

lemma mergeRun_length: "length (snd (mergeRun Predicate First ps)) \<le> length ps"
  by (induction ps arbitrary: First) (auto simp: le_SucI)

function mergeAdjacentPartitionsIf :: "(InstPartition \<Rightarrow> bool) \<Rightarrow> InstPartition list
    \<Rightarrow> InstPartition list" where
  "mergeAdjacentPartitionsIf Predicate [] = []"
| "mergeAdjacentPartitionsIf Predicate (p # ps) =
     (if \<not> Predicate p then p # mergeAdjacentPartitionsIf Predicate ps
      else fst (mergeRun Predicate p ps)
           # mergeAdjacentPartitionsIf Predicate (snd (mergeRun Predicate p ps)))"
  by pat_completeness auto
termination
  by (relation "measure (\<lambda>(Predicate, ps). length ps)")
     (auto simp: mergeRun_length less_Suc_eq_le)

definition mergeAdjacentNonCyclic :: "InstPartition list \<Rightarrow> InstPartition list" where
  "mergeAdjacentNonCyclic PC = mergeAdjacentPartitionsIf (\<lambda>P. \<not> hasDepCycle P) PC"

text \<open>The predicate of \<open>mergeNonIfConvertible\<close>.  \<open>needsPred\<close> stands for
  \<open>LoopAccessInfo::blockNeedsPredication\<close> on the instruction's parent block.\<close>

fun allStoresConditional :: "ir \<Rightarrow> (nat \<Rightarrow> bool) \<Rightarrow> bool \<Rightarrow> nat list \<Rightarrow> bool" where
  "allStoresConditional F needsPred seenStore [] = seenStore"
| "allStoresConditional F needsPred seenStore (I # Is) =
     (case Insts F I of
        None \<Rightarrow> allStoresConditional F needsPred seenStore Is
      | Some i \<Rightarrow>
          if opcode i = Store then
            (if \<not> needsPred (parent i) then False
             else allStoresConditional F needsPred True Is)
          else allStoresConditional F needsPred seenStore Is)"

definition nonIfConvertible :: "ir \<Rightarrow> (nat \<Rightarrow> bool) \<Rightarrow> InstPartition \<Rightarrow> bool" where
  "nonIfConvertible F needsPred Partition =
     (if hasDepCycle Partition then True
      else allStoresConditional F needsPred False (Set Partition))"

definition mergeNonIfConvertible :: "ir \<Rightarrow> (nat \<Rightarrow> bool) \<Rightarrow> InstPartition list
    \<Rightarrow> InstPartition list" where
  "mergeNonIfConvertible F needsPred PC =
     mergeAdjacentPartitionsIf (nonIfConvertible F needsPred) PC"

definition mergeBeforePopulating :: "bool \<Rightarrow> ir \<Rightarrow> (nat \<Rightarrow> bool) \<Rightarrow> InstPartition list
    \<Rightarrow> InstPartition list" where
  "mergeBeforePopulating DistributeNonIfConvertible F needsPred PC =
     (let PC1 = mergeAdjacentNonCyclic PC
      in if \<not> DistributeNonIfConvertible then mergeNonIfConvertible F needsPred PC1 else PC1)"

subsection \<open>MemoryInstructionDependences\<close>

text \<open>\<open>Accesses[i].NumUnsafeDependencesStartOrEnd\<close> updated with \<open>f\<close>; an index past the
  end of the vector is an abort.\<close>

definition updEntry :: "(32 word \<Rightarrow> 32 word) \<Rightarrow> nat \<Rightarrow> Entry list \<Rightarrow> Entry list option" where
  "updEntry f i Accesses =
     (if i < length Accesses
      then Some (Accesses[i := (Accesses ! i)\<lparr>NumUnsafeDependencesStartOrEnd :=
                    f (NumUnsafeDependencesStartOrEnd (Accesses ! i))\<rparr>])
      else None)"

fun addDependences :: "Dependence list \<Rightarrow> Entry list \<Rightarrow> Entry list option" where
  "addDependences [] Accesses = Some Accesses"
| "addDependences (Dep # Deps) Accesses =
     (if isPossiblyBackward Dep then
        do {
          A1 \<leftarrow> updEntry (\<lambda>n. n + 1) (Source Dep) Accesses;
          A2 \<leftarrow> updEntry (\<lambda>n. n - 1) (Destination Dep) A1;
          addDependences Deps A2
        }
      else addDependences Deps Accesses)"

definition MemoryInstructionDependences :: "nat list \<Rightarrow> Dependence list \<Rightarrow> Entry list option" where
  "MemoryInstructionDependences Instructions InterestingDependences =
     addDependences InterestingDependences
       (map (\<lambda>I. \<lparr>Inst = I, NumUnsafeDependencesStartOrEnd = 0\<rparr>) Instructions)"

subsection \<open>Seeding the partitions (processLoop, first loop)\<close>

text \<open>The loop over \<open>MID\<close>.  \<open>NumUnsafeDependencesActive\<close> is an \<open>int\<close> to which an
  \<open>unsigned\<close> is added: a 32-bit word read as signed by the assertion.\<close>

fun seedPartitions :: "nat \<Rightarrow> Entry list \<Rightarrow> 32 word \<Rightarrow> InstPartition list
    \<Rightarrow> InstPartition list option" where
  "seedPartitions L [] NumUnsafeDependencesActive PC = Some PC"
| "seedPartitions L (InstDep # MID) NumUnsafeDependencesActive PC =
     (let I = Inst InstDep;
          PC1 = (if NumUnsafeDependencesActive \<noteq> 0
                    \<or> NumUnsafeDependencesStartOrEnd InstDep > 0
                 then addToCyclicPartition L I PC
                 else addToNewNonCyclicPartition L I PC);
          Active1 = NumUnsafeDependencesActive + NumUnsafeDependencesStartOrEnd InstDep
      in if 0 \<le> sint Active1 then seedPartitions L MID Active1 PC1 else None)"

text \<open>The partition builder in the words of the specification: access number \<open>i\<close> joins
  the current cyclic partition when a possibly-backward dependence that started at an
  earlier access has not ended before \<open>i\<close>, or when one starts at \<open>i\<close>.\<close>

definition activeBefore :: "Dependence list \<Rightarrow> nat \<Rightarrow> nat" where
  "activeBefore Deps i =
     length (filter (\<lambda>d. isPossiblyBackward d \<and> Source d < i \<and> i \<le> Destination d) Deps)"

definition startsUnsafe :: "Dependence list \<Rightarrow> nat \<Rightarrow> bool" where
  "startsUnsafe Deps i = (\<exists>d \<in> set Deps. isPossiblyBackward d \<and> Source d = i)"

fun seedPartitions_spec :: "nat \<Rightarrow> Dependence list \<Rightarrow> nat list \<Rightarrow> nat \<Rightarrow> InstPartition list
    \<Rightarrow> InstPartition list" where
  "seedPartitions_spec L Deps [] i PC = PC"
| "seedPartitions_spec L Deps (I # Is) i PC =
     seedPartitions_spec L Deps Is (Suc i)
       (if activeBefore Deps i \<noteq> 0 \<or> startsUnsafe Deps i
        then (if PC = [] \<or> \<not> DepCycle (last PC)
              then PC @ [\<lparr>Set = [I], DepCycle = True, OrigLoop = L, ClonedLoop = None,
                          ClonedLoopBlocks = [], VMap = Map.empty\<rparr>]
              else butlast PC @ [(last PC)\<lparr>Set := set_insert I (Set (last PC))\<rparr>])
        else PC @ [\<lparr>Set = [I], DepCycle = False, OrigLoop = L, ClonedLoop = None,
                     ClonedLoopBlocks = [], VMap = Map.empty\<rparr>])"

text \<open>The number of possibly-backward dependences whose span covers the point just
  after access \<open>i\<close>.\<close>

definition activeAfter :: "Dependence list \<Rightarrow> nat \<Rightarrow> nat" where
  "activeAfter Deps i =
     length (filter (\<lambda>d. isPossiblyBackward d \<and> Source d \<le> i \<and> i < Destination d) Deps)"

text \<open>Dependences as the dependence analysis delivers them: the source precedes the
  destination, and both index a memory instruction.\<close>

definition wfDeps :: "nat \<Rightarrow> Dependence list \<Rightarrow> bool" where
  "wfDeps n Deps =
     (\<forall>d \<in> set Deps. isPossiblyBackward d \<longrightarrow> Source d < Destination d \<and> Destination d < n)"

subsection \<open>Counting dependences\<close>

definition numStarts :: "Dependence list \<Rightarrow> nat \<Rightarrow> nat" where
  "numStarts Deps i = length (filter (\<lambda>d. isPossiblyBackward d \<and> Source d = i) Deps)"

definition numEnds :: "Dependence list \<Rightarrow> nat \<Rightarrow> nat" where
  "numEnds Deps i = length (filter (\<lambda>d. isPossiblyBackward d \<and> Destination d = i) Deps)"

definition startedBefore :: "Dependence list \<Rightarrow> nat \<Rightarrow> nat" where
  "startedBefore Deps k = length (filter (\<lambda>d. isPossiblyBackward d \<and> Source d < k) Deps)"

definition endedBefore :: "Dependence list \<Rightarrow> nat \<Rightarrow> nat" where
  "endedBefore Deps k = length (filter (\<lambda>d. isPossiblyBackward d \<and> Destination d < k) Deps)"

subsection \<open>EquivalenceClasses\<close>

text \<open>Modelled from the spec: \<open>llvm/ADT/EquivalenceClasses.h\<close> is not among the sources.
  The specification asks for a union-find structure whose classes each have a
  representative.  A class is the list of its members, the leader first and the others
  in the order of the member iterator; \<open>unionSets V1 V2\<close> inserts both values as
  singleton classes if they are new and, when their leaders differ, appends the class
  of \<open>V2\<close> to the class of \<open>V1\<close>, whose leader stays the leader.  The elements are
  the partitions, identified by their position in the container.\<close>

type_synonym EquivalenceClasses = "nat list list"

definition ec_insert :: "nat \<Rightarrow> EquivalenceClasses \<Rightarrow> EquivalenceClasses" where
  "ec_insert V EC = (if \<exists>c \<in> set EC. V \<in> set c then EC else EC @ [[V]])"

definition unionSets :: "nat \<Rightarrow> nat \<Rightarrow> EquivalenceClasses \<Rightarrow> EquivalenceClasses" where
  "unionSets V1 V2 EC =
     (let EC1 = ec_insert V2 (ec_insert V1 EC)
      in case (find (\<lambda>c. V1 \<in> set c) EC1, find (\<lambda>c. V2 \<in> set c) EC1) of
           (Some c1, Some c2) \<Rightarrow>
             if c1 = c2 then EC1
             else map (\<lambda>c. if c = c1 then c1 @ c2 else c) (filter (\<lambda>c. c \<noteq> c2) EC1)
         | _ \<Rightarrow> EC1)"

subsection \<open>InstPartitionContainer::mergeToAvoidDuplicatedLoads\<close>

definition isaLoad :: "ir \<Rightarrow> nat \<Rightarrow> bool" where
  "isaLoad F I = (case Insts F I of Some i \<Rightarrow> opcode i = Load | None \<Rightarrow> False)"

text \<open>The \<open>do ... while\<close> loop: \<open>PartJ\<close> starts at \<open>I\<close>, steps back and is united with
  \<open>PartI\<close> until it is the partition the load was first seen in.  Stepping back from
  the first partition is an abort.\<close>

fun unionBack :: "nat \<Rightarrow> nat \<Rightarrow> nat \<Rightarrow> EquivalenceClasses \<Rightarrow> EquivalenceClasses option" where
  "unionBack PartI 0 LoadToPart ToBeMerged = None"
| "unionBack PartI (Suc PartJ) LoadToPart ToBeMerged =
     (let EC1 = unionSets PartI PartJ ToBeMerged
      in if PartJ \<noteq> LoadToPart then unionBack PartI PartJ LoadToPart EC1 else Some EC1)"

fun scanInsts :: "ir \<Rightarrow> nat \<Rightarrow> nat list \<Rightarrow> (nat \<rightharpoonup> nat) \<times> EquivalenceClasses
    \<Rightarrow> ((nat \<rightharpoonup> nat) \<times> EquivalenceClasses) option" where
  "scanInsts F PartI [] (LoadToPartition, ToBeMerged) = Some (LoadToPartition, ToBeMerged)"
| "scanInsts F PartI (I # Is) (LoadToPartition, ToBeMerged) =
     (if isaLoad F I then
        (case LoadToPartition I of
           None \<Rightarrow> scanInsts F PartI Is (LoadToPartition(I \<mapsto> PartI), ToBeMerged)
         | Some LoadToPart \<Rightarrow>
             do {
               EC1 \<leftarrow> unionBack PartI PartI LoadToPart ToBeMerged;
               scanInsts F PartI Is (LoadToPartition, EC1)
             })
      else scanInsts F PartI Is (LoadToPartition, ToBeMerged))"

fun scanPartitions :: "ir \<Rightarrow> nat \<Rightarrow> InstPartition list \<Rightarrow> (nat \<rightharpoonup> nat) \<times> EquivalenceClasses
    \<Rightarrow> ((nat \<rightharpoonup> nat) \<times> EquivalenceClasses) option" where
  "scanPartitions F I [] st = Some st"
| "scanPartitions F I (PartI # Ps) st =
     do {
       st1 \<leftarrow> scanInsts F I (Set PartI) st;
       scanPartitions F (Suc I) Ps st1
     }"

text \<open>Every member of a class after its leader is moved into the leader.\<close>

fun mergeMembers :: "nat \<Rightarrow> nat list \<Rightarrow> InstPartition list \<Rightarrow> InstPartition list" where
  "mergeMembers PartI [] PC = PC"
| "mergeMembers PartI (PartJ # Js) PC =
     mergeMembers PartI Js
       (PC[PartJ := fst (moveTo (PC ! PartJ) (PC ! PartI)),
           PartI := snd (moveTo (PC ! PartJ) (PC ! PartI))])"

fun mergeClasses :: "EquivalenceClasses \<Rightarrow> InstPartition list \<Rightarrow> InstPartition list" where
  "mergeClasses [] PC = PC"
| "mergeClasses (c # cs) PC =
     mergeClasses cs (case c of [] \<Rightarrow> PC | PartI # Js \<Rightarrow> mergeMembers PartI Js PC)"

definition mergeToAvoidDuplicatedLoads :: "ir \<Rightarrow> InstPartition list
    \<Rightarrow> (bool \<times> InstPartition list) option" where
  "mergeToAvoidDuplicatedLoads F PC =
     do {
       (LoadToPartition, ToBeMerged) \<leftarrow> scanPartitions F 0 PC (Map.empty, []);
       if ToBeMerged = [] then Some (False, PC)
       else Some (True, filter (\<lambda>P. \<not> empty_part P) (mergeClasses ToBeMerged PC))
     }"

subsection \<open>What a partition sequence holds\<close>

definition allInsts :: "InstPartition list \<Rightarrow> nat set" where
  "allInsts PC = (\<Union>P \<in> set PC. set (Set P))"

definition cyclicInsts :: "InstPartition list \<Rightarrow> nat set" where
  "cyclicInsts PC = (\<Union>P \<in> {P \<in> set PC. DepCycle P}. set (Set P))"

definition wf_ec :: "nat \<Rightarrow> EquivalenceClasses \<Rightarrow> bool" where
  "wf_ec n EC = (distinct (concat EC) \<and> [] \<notin> set EC \<and> (\<forall>c \<in> set EC. \<forall>x \<in> set c. x < n))"

definition sameClass :: "EquivalenceClasses \<Rightarrow> nat \<Rightarrow> nat \<Rightarrow> bool" where
  "sameClass EC a b = (\<exists>c \<in> set EC. a \<in> set c \<and> b \<in> set c)"

subsection \<open>Auxiliary notions for the merge passes\<close>

definition cyc :: "InstPartition \<Rightarrow> nat set" where
  "cyc P = (if DepCycle P then set (Set P) else {})"

definition scanInv :: "ir \<Rightarrow> nat \<Rightarrow> (nat \<times> nat) set \<Rightarrow> (nat \<rightharpoonup> nat) \<Rightarrow> EquivalenceClasses \<Rightarrow> bool" where
  "scanInv F n D L2P EC \<longleftrightarrow>
     wf_ec n EC \<and> (\<forall>x K. L2P x = Some K \<longrightarrow> (K, x) \<in> D) \<and>
     (\<forall>j x. (j, x) \<in> D \<and> isaLoad F x \<longrightarrow> (\<exists>K. L2P x = Some K \<and> (K = j \<or> sameClass EC K j)))"

definition scanned :: "InstPartition list \<Rightarrow> nat \<Rightarrow> (nat \<times> nat) set" where
  "scanned PC I = {(j, x). j < I \<and> x \<in> set (Set (PC ! j))}"

subsection \<open>Control flow, loops and dominators\<close>

text \<open>Modelled from the spec: the control-flow, loop-nest and dominator-tree
  representation (\<open>llvm/IR/BasicBlock.h\<close>, \<open>llvm/Analysis/LoopInfo.h\<close>,
  \<open>llvm/IR/Dominators.h\<close>) is not among the sources; the specification names it an
  external collaborator reached through block cloning, block insertion, immediate
  dominator queries and updates, and loop membership.  A block is the list of its
  instructions, the last one its terminator; the successors of a block are the block
  operands of its terminator; the dominator tree maps each of its nodes to its
  immediate dominator (\<open>None\<close> for the root).\<close>

definition isTerminator :: "instruction \<Rightarrow> bool" where
  "isTerminator i = (opcode i = Br \<or> opcode i = OtherTerm)"

definition getTerminator :: "ir \<Rightarrow> nat \<Rightarrow> nat option" where
  "getTerminator F B =
     (case BBs F B of
        None \<Rightarrow> None
      | Some is \<Rightarrow>
          if is = [] then None
          else (case Insts F (last is) of
                  None \<Rightarrow> None
                | Some i \<Rightarrow> if isTerminator i then Some (last is) else None))"

fun blockOperands :: "val list \<Rightarrow> nat list" where
  "blockOperands [] = []"
| "blockOperands (VBlock b # vs) = b # blockOperands vs"
| "blockOperands (v # vs) = blockOperands vs"

definition successors :: "ir \<Rightarrow> nat \<Rightarrow> nat list" where
  "successors F B =
     (case getTerminator F B of
        None \<Rightarrow> []
      | Some T \<Rightarrow> (case Insts F T of None \<Rightarrow> [] | Some i \<Rightarrow> blockOperands (operands i)))"

text \<open>One entry per edge into \<open>B\<close>.\<close>

definition predecessors :: "ir \<Rightarrow> nat \<Rightarrow> nat list" where
  "predecessors F B =
     concat (map (\<lambda>X. map (\<lambda>s. X) (filter (\<lambda>s. s = B) (successors F X))) (Layout F))"

definition getSinglePredecessor :: "ir \<Rightarrow> nat \<Rightarrow> nat option" where
  "getSinglePredecessor F B = (case predecessors F B of [P] \<Rightarrow> Some P | _ \<Rightarrow> None)"

definition getBlocks :: "ir \<Rightarrow> nat \<Rightarrow> nat list" where
  "getBlocks F L = (case LoopObjs F L of None \<Rightarrow> [] | Some l \<Rightarrow> LBlocks l)"

definition contains :: "ir \<Rightarrow> nat \<Rightarrow> nat \<Rightarrow> bool" where
  "contains F L B = (B \<in> set (getBlocks F L))"

definition getHeader :: "ir \<Rightarrow> nat \<Rightarrow> nat option" where
  "getHeader F L = (case getBlocks F L of [] \<Rightarrow> None | H # Bs \<Rightarrow> Some H)"

fun loopPredecessor :: "ir \<Rightarrow> nat \<Rightarrow> nat option \<Rightarrow> nat list \<Rightarrow> nat option" where
  "loopPredecessor F L Out [] = Out"
| "loopPredecessor F L Out (N # Ns) =
     (if \<not> contains F L N then
        (if Out \<noteq> None \<and> Out \<noteq> Some N then None else loopPredecessor F L (Some N) Ns)
      else loopPredecessor F L Out Ns)"

definition getLoopPredecessor :: "ir \<Rightarrow> nat \<Rightarrow> nat option" where
  "getLoopPredecessor F L =
     (case getHeader F L of None \<Rightarrow> None | Some H \<Rightarrow> loopPredecessor F L None (predecessors F H))"

definition getLoopPreheader :: "ir \<Rightarrow> nat \<Rightarrow> nat option" where
  "getLoopPreheader F L =
     (case getLoopPredecessor F L of
        None \<Rightarrow> None
      | Some Out \<Rightarrow> if length (successors F Out) = 1 then Some Out else None)"

definition getExitBlocks :: "ir \<Rightarrow> nat \<Rightarrow> nat list" where
  "getExitBlocks F L =
     concat (map (\<lambda>B. filter (\<lambda>s. \<not> contains F L s) (successors F B)) (getBlocks F L))"

definition getExitBlock :: "ir \<Rightarrow> nat \<Rightarrow> nat option" where
  "getExitBlock F L = (case getExitBlocks F L of [E] \<Rightarrow> Some E | _ \<Rightarrow> None)"

definition getExitingBlocks :: "ir \<Rightarrow> nat \<Rightarrow> nat list" where
  "getExitingBlocks F L =
     filter (\<lambda>B. \<exists>s \<in> set (successors F B). \<not> contains F L s) (getBlocks F L)"

definition getExitingBlock :: "ir \<Rightarrow> nat \<Rightarrow> nat option" where
  "getExitingBlock F L = (case getExitingBlocks F L of [E] \<Rightarrow> Some E | _ \<Rightarrow> None)"

text \<open>\<open>DT->getNode(BB)->getIDom()->getBlock()\<close>: the node and its immediate dominator
  must both exist.\<close>

definition getIDomBlock :: "ir \<Rightarrow> nat \<Rightarrow> nat option" where
  "getIDomBlock F BB = (case IDom F BB of Some (Some D) \<Rightarrow> Some D | _ \<Rightarrow> None)"

text \<open>\<open>DT->addNewBlock(BB, DomBB)\<close> asserts that \<open>BB\<close> has no node yet and that \<open>DomBB\<close>
  has one.\<close>

definition addNewBlock :: "nat \<Rightarrow> nat \<Rightarrow> ir \<Rightarrow> ir option" where
  "addNewBlock BB DomBB F =
     (if IDom F BB = None \<and> IDom F DomBB \<noteq> None
      then Some (F\<lparr>IDom := (IDom F)(BB \<mapsto> Some DomBB)\<rparr>)
      else None)"

definition changeImmediateDominator :: "nat \<Rightarrow> nat \<Rightarrow> ir \<Rightarrow> ir option" where
  "changeImmediateDominator BB NewBB F =
     (if IDom F BB \<noteq> None \<and> IDom F NewBB \<noteq> None
      then Some (F\<lparr>IDom := (IDom F)(BB \<mapsto> Some NewBB)\<rparr>)
      else None)"

text \<open>\<open>L->addBasicBlockToLoop(NewBB, *LI)\<close>: the block is mapped to \<open>L\<close> and appended to
  the blocks of \<open>L\<close> and of every loop up the chain of parents.\<close>

partial_function (option) addBlockEntryUp :: "nat option \<Rightarrow> nat \<Rightarrow> ir \<Rightarrow> ir option" where
  "addBlockEntryUp L NewBB F =
     (case L of
        None \<Rightarrow> Some F
      | Some L1 \<Rightarrow>
          (case LoopObjs F L1 of
             None \<Rightarrow> None
           | Some l \<Rightarrow>
               addBlockEntryUp (ParentLoop l) NewBB
                 (F\<lparr>LoopObjs := (LoopObjs F)(L1 \<mapsto> l\<lparr>LBlocks := LBlocks l @ [NewBB]\<rparr>)\<rparr>)))"

declare addBlockEntryUp.simps [code]

definition addBasicBlockToLoop :: "nat \<Rightarrow> nat \<Rightarrow> ir \<Rightarrow> ir option" where
  "addBasicBlockToLoop L NewBB F =
     (if BBMap F NewBB \<noteq> None then None
      else addBlockEntryUp (Some L) NewBB (F\<lparr>BBMap := (BBMap F)(NewBB \<mapsto> L)\<rparr>))"

definition addChildLoop :: "nat \<Rightarrow> nat \<Rightarrow> ir \<Rightarrow> ir option" where
  "addChildLoop ParentL NewChild F =
     (case (LoopObjs F ParentL, LoopObjs F NewChild) of
        (Some p, Some c) \<Rightarrow>
          if ParentLoop c \<noteq> None then None
          else Some (F\<lparr>LoopObjs := (LoopObjs F)
                      (NewChild \<mapsto> c\<lparr>ParentLoop := Some ParentL\<rparr>,
                       ParentL \<mapsto> p\<lparr>SubLoops := SubLoops p @ [NewChild]\<rparr>)\<rparr>)
      | _ \<Rightarrow> None)"

definition addTopLevelLoop :: "nat \<Rightarrow> ir \<Rightarrow> ir option" where
  "addTopLevelLoop New F =
     (case LoopObjs F New of
        None \<Rightarrow> None
      | Some c \<Rightarrow> if ParentLoop c \<noteq> None then None
                  else Some (F\<lparr>TopLevelLoops := TopLevelLoops F @ [New]\<rparr>))"

text \<open>\<open>new Loop()\<close>.\<close>

definition newLoop :: "ir \<Rightarrow> nat \<times> ir" where
  "newLoop F =
     (Fresh F,
      F\<lparr>LoopObjs := (LoopObjs F)(Fresh F \<mapsto> \<lparr>LBlocks = [], ParentLoop = None, SubLoops = []\<rparr>),
        Fresh := Suc (Fresh F)\<rparr>)"

subsection \<open>Editing instructions and blocks\<close>

text \<open>Modelled from the spec: the instruction and block editing primitives
  (\<open>CloneBasicBlock\<close>, \<open>RemapInstruction\<close>, \<open>SplitBlock\<close>, \<open>BranchInst::Create\<close>,
  \<open>replaceAllUsesWith\<close>, \<open>eraseFromParent\<close>, the block list's \<open>splice\<close>) are not among
  the sources.  New objects get the next unused address \<open>Fresh\<close>.\<close>

definition instsOf :: "ir \<Rightarrow> nat \<Rightarrow> nat list" where
  "instsOf F B = (case BBs F B of None \<Rightarrow> [] | Some is \<Rightarrow> is)"

definition allInstructions :: "ir \<Rightarrow> nat list" where
  "allInstructions F = concat (map (instsOf F) (Layout F))"

definition usesValue :: "ir \<Rightarrow> val \<Rightarrow> nat \<Rightarrow> bool" where
  "usesValue F V J = (case Insts F J of None \<Rightarrow> False | Some j \<Rightarrow> V \<in> set (operands j))"

definition users :: "ir \<Rightarrow> nat \<Rightarrow> nat list" where
  "users F I = filter (usesValue F (VInst I)) (allInstructions F)"

definition parentOf :: "ir \<Rightarrow> nat \<Rightarrow> nat option" where
  "parentOf F I = map_option parent (Insts F I)"

definition isa :: "ir \<Rightarrow> opcode \<Rightarrow> nat \<Rightarrow> bool" where
  "isa F oc I = (case Insts F I of None \<Rightarrow> False | Some i \<Rightarrow> opcode i = oc)"

text \<open>\<open>Twine(Index)\<close>: the decimal digits of an unsigned number.\<close>

fun showNat :: "nat \<Rightarrow> string" where
  "showNat n =
     (if n < 10 then [char_of (48 + n)]
      else showNat (n div 10) @ [char_of (48 + n mod 10)])"

declare showNat.simps [simp del]

definition setName :: "nat \<Rightarrow> string \<Rightarrow> ir \<Rightarrow> ir" where
  "setName B n F = F\<lparr>BBName := (BBName F)(B := n)\<rparr>"

fun cloneInsts :: "nat \<Rightarrow> nat list \<Rightarrow> (val \<rightharpoonup> val) \<Rightarrow> ir \<Rightarrow> nat list
    \<Rightarrow> (nat list \<times> (val \<rightharpoonup> val) \<times> ir) option" where
  "cloneInsts NewBB [] VM F acc = Some (acc, VM, F)"
| "cloneInsts NewBB (I # Is) VM F acc =
     (case Insts F I of
        None \<Rightarrow> None
      | Some i \<Rightarrow>
          cloneInsts NewBB Is (VM(VInst I \<mapsto> VInst (Fresh F)))
            (F\<lparr>Insts := (Insts F)(Fresh F \<mapsto> i\<lparr>parent := NewBB\<rparr>), Fresh := Suc (Fresh F)\<rparr>)
            (acc @ [Fresh F]))"

definition CloneBasicBlock :: "nat \<Rightarrow> (val \<rightharpoonup> val) \<Rightarrow> string \<Rightarrow> ir
    \<Rightarrow> (nat \<times> (val \<rightharpoonup> val) \<times> ir) option" where
  "CloneBasicBlock BB VM NameSuffix F =
     (case BBs F BB of
        None \<Rightarrow> None
      | Some is \<Rightarrow>
          (case cloneInsts (Fresh F) is VM
                  (F\<lparr>BBName := (BBName F)(Fresh F := BBName F BB @ NameSuffix),
                     Fresh := Suc (Fresh F)\<rparr>) [] of
             None \<Rightarrow> None
           | Some (news, VM1, F1) \<Rightarrow>
               Some (Fresh F, VM1,
                     F1\<lparr>BBs := (BBs F1)(Fresh F \<mapsto> news), Layout := Layout F1 @ [Fresh F]\<rparr>)))"

definition MapValue :: "(val \<rightharpoonup> val) \<Rightarrow> val \<Rightarrow> val" where
  "MapValue VM v = (case VM v of None \<Rightarrow> v | Some w \<Rightarrow> w)"

definition MapBlock :: "(val \<rightharpoonup> val) \<Rightarrow> nat \<Rightarrow> nat" where
  "MapBlock VM b = (case VM (VBlock b) of Some (VBlock c) \<Rightarrow> c | _ \<Rightarrow> b)"

text \<open>\<open>RemapInstruction\<close> with \<open>RF_IgnoreMissingEntries\<close>: an operand without an entry
  stays.\<close>

definition RemapInstruction :: "(val \<rightharpoonup> val) \<Rightarrow> ir \<Rightarrow> nat \<Rightarrow> ir" where
  "RemapInstruction VM F I =
     (case Insts F I of
        None \<Rightarrow> F
      | Some i \<Rightarrow>
          F\<lparr>Insts := (Insts F)(I \<mapsto> i\<lparr>operands := map (MapValue VM) (operands i),
                                         incoming := map (MapBlock VM) (incoming i)\<rparr>)\<rparr>)"

definition remapInstructionsInLoop :: "nat list \<Rightarrow> (val \<rightharpoonup> val) \<Rightarrow> ir \<Rightarrow> ir" where
  "remapInstructionsInLoop Blocks VM F =
     foldl (\<lambda>F1 BB. foldl (RemapInstruction VM) F1 (instsOf F1 BB)) F Blocks"

definition insertBefore :: "nat \<Rightarrow> nat list \<Rightarrow> nat list \<Rightarrow> nat list" where
  "insertBefore Before xs l =
     takeWhile (\<lambda>x. x \<noteq> Before) l @ xs @ dropWhile (\<lambda>x. x \<noteq> Before) l"

text \<open>\<open>splice(Before, list, X)\<close> and \<open>splice(Before, list, First, end())\<close> on the function's
  block list.\<close>

definition spliceOne :: "nat \<Rightarrow> nat \<Rightarrow> nat list \<Rightarrow> nat list" where
  "spliceOne Before X l = insertBefore Before [X] (removeAll X l)"

definition spliceToEnd :: "nat \<Rightarrow> nat \<Rightarrow> nat list \<Rightarrow> nat list" where
  "spliceToEnd Before First l =
     insertBefore Before (dropWhile (\<lambda>x. x \<noteq> First) l) (takeWhile (\<lambda>x. x \<noteq> First) l)"

definition replaceIncoming :: "nat \<Rightarrow> nat \<Rightarrow> ir \<Rightarrow> nat \<Rightarrow> ir" where
  "replaceIncoming Old New F I =
     (case Insts F I of
        None \<Rightarrow> F
      | Some i \<Rightarrow>
          if opcode i = PHI
          then F\<lparr>Insts := (Insts F)(I \<mapsto> i\<lparr>incoming := map (\<lambda>b. if b = Old then New else b)
                                                        (incoming i)\<rparr>)\<rparr>
          else F)"

text \<open>\<open>SplitBlock(Old, SplitPt, DT, LI)\<close>: the instructions from \<open>SplitPt\<close> on move to a new
  block placed after \<open>Old\<close>, which gets a branch to it; PHI nodes of the new block's
  successors name the new block; the new block joins the loop of \<open>Old\<close>, and in the
  dominator tree it takes over the children of \<open>Old\<close>.\<close>

definition SplitBlock :: "nat \<Rightarrow> nat \<Rightarrow> ir \<Rightarrow> (nat \<times> ir) option" where
  "SplitBlock Old SplitPt F =
     (case BBs F Old of
        None \<Rightarrow> None
      | Some is \<Rightarrow>
          if SplitPt \<notin> set is then None
          else
            let New = Fresh F;
                BI = Suc (Fresh F);
                front = takeWhile (\<lambda>i. i \<noteq> SplitPt) is;
                back = dropWhile (\<lambda>i. i \<noteq> SplitPt) is;
                F1 = F\<lparr>Insts := (\<lambda>j. if j \<in> set back
                                      then map_option (\<lambda>i. i\<lparr>parent := New\<rparr>) (Insts F j)
                                      else Insts F j)
                                 (BI \<mapsto> \<lparr>opcode = Br, operands = [VBlock New], incoming = [],
                                         ty = 0, parent = Old, noalias = [], alias_scope = []\<rparr>),
                       BBs := (BBs F)(Old \<mapsto> front @ [BI], New \<mapsto> back),
                       BBName := (BBName F)(New := BBName F Old @ ''.split''),
                       Layout := takeWhile (\<lambda>b. b \<noteq> Old) (Layout F) @ [Old, New]
                                   @ tl (dropWhile (\<lambda>b. b \<noteq> Old) (Layout F)),
                       Fresh := Suc (Suc (Fresh F))\<rparr>;
                F2 = foldl (\<lambda>G S. foldl (replaceIncoming Old New) G (instsOf G S)) F1
                       (successors F1 New)
            in (case (case BBMap F2 Old of
                        None \<Rightarrow> Some F2
                      | Some L \<Rightarrow> addBasicBlockToLoop L New F2) of
                  None \<Rightarrow> None
                | Some F3 \<Rightarrow>
                    Some (New,
                          if IDom F3 Old = None then F3
                          else F3\<lparr>IDom := (\<lambda>x. if x = New then Some (Some Old)
                                                 else if IDom F3 x = Some (Some Old)
                                                      then Some (Some New)
                                                      else IDom F3 x)\<rparr>)))"

text \<open>\<open>BranchInst::Create(IfTrue, IfFalse, Cond, InsertBefore)\<close>: a conditional branch,
  placed before \<open>InsertBefore\<close> in its block.\<close>

definition BranchInst_Create :: "nat \<Rightarrow> nat \<Rightarrow> val \<Rightarrow> nat \<Rightarrow> ir \<Rightarrow> (nat \<times> ir) option" where
  "BranchInst_Create IfTrue IfFalse Cond InsertBefore F =
     (case Insts F InsertBefore of
        None \<Rightarrow> None
      | Some ib \<Rightarrow>
          (case BBs F (parent ib) of
             None \<Rightarrow> None
           | Some is \<Rightarrow>
               Some (Fresh F,
                     F\<lparr>Insts := (Insts F)(Fresh F \<mapsto>
                            \<lparr>opcode = Br, operands = [Cond, VBlock IfTrue, VBlock IfFalse],
                             incoming = [], ty = 0, parent = parent ib,
                             noalias = [], alias_scope = []\<rparr>),
                       BBs := (BBs F)(parent ib \<mapsto> insertBefore InsertBefore [Fresh F] is),
                       Fresh := Suc (Fresh F)\<rparr>)))"

text \<open>Where a branch instruction sends control, given the value of its condition.\<close>

definition branchTarget :: "instruction \<Rightarrow> bool \<Rightarrow> nat option" where
  "branchTarget i c =
     (case operands i of
        [VBlock Dest] \<Rightarrow> Some Dest
      | [Cond, VBlock IfTrue, VBlock IfFalse] \<Rightarrow> Some (if c then IfTrue else IfFalse)
      | _ \<Rightarrow> None)"

definition eraseFromParent :: "nat \<Rightarrow> ir \<Rightarrow> ir option" where
  "eraseFromParent I F =
     (case Insts F I of
        None \<Rightarrow> None
      | Some i \<Rightarrow>
          Some (F\<lparr>BBs := (BBs F)(parent i \<mapsto> removeAll I (instsOf F (parent i))),
                  Insts := (Insts F)(I := None)\<rparr>))"

definition replaceOperand :: "val \<Rightarrow> val \<Rightarrow> instruction \<Rightarrow> instruction" where
  "replaceOperand From To i = i\<lparr>operands := map (\<lambda>v. if v = From then To else v) (operands i)\<rparr>"

definition replaceUsesOfWith :: "nat \<Rightarrow> val \<Rightarrow> val \<Rightarrow> ir \<Rightarrow> ir" where
  "replaceUsesOfWith User From To F =
     (case Insts F User of
        None \<Rightarrow> F
      | Some u \<Rightarrow> F\<lparr>Insts := (Insts F)(User \<mapsto> replaceOperand From To u)\<rparr>)"

definition replaceAllUsesWith :: "nat \<Rightarrow> val \<Rightarrow> ir \<Rightarrow> ir" where
  "replaceAllUsesWith I V F =
     F\<lparr>Insts := (\<lambda>j. map_option (replaceOperand (VInst I) V) (Insts F j))\<rparr>"

definition use_empty :: "ir \<Rightarrow> nat \<Rightarrow> bool" where
  "use_empty F I = (users F I = [])"

subsection \<open>Cloning a loop with its preheader\<close>

text \<open>The loop over \<open>OrigLoop->getBlocks()\<close> in \<open>cloneLoopWithPreheader\<close>.\<close>

fun cloneLoopBlocks :: "nat list \<Rightarrow> nat \<Rightarrow> string \<Rightarrow> (val \<rightharpoonup> val) \<Rightarrow> nat list \<Rightarrow> ir
    \<Rightarrow> ((val \<rightharpoonup> val) \<times> nat list \<times> ir) option" where
  "cloneLoopBlocks [] NewLoop NameSuffix VM Blocks F = Some (VM, Blocks, F)"
| "cloneLoopBlocks (BB # BBs1) NewLoop NameSuffix VM Blocks F =
     do {
       (NewBB, VM1, F1) \<leftarrow> CloneBasicBlock BB VM NameSuffix F;
       F2 \<leftarrow> addBasicBlockToLoop NewLoop NewBB F1;
       IDomBB \<leftarrow> getIDomBlock F2 BB;
       NewIDom \<leftarrow> (case (VM1(VBlock BB \<mapsto> VBlock NewBB)) (VBlock IDomBB) of
                     Some (VBlock D) \<Rightarrow> Some D
                   | _ \<Rightarrow> None);
       F3 \<leftarrow> addNewBlock NewBB NewIDom F2;
       cloneLoopBlocks BBs1 NewLoop NameSuffix (VM1(VBlock BB \<mapsto> VBlock NewBB))
         (Blocks @ [NewBB]) F3
     }"

definition cloneLoopWithPreheader :: "nat \<Rightarrow> nat \<Rightarrow> nat \<Rightarrow> (val \<rightharpoonup> val) \<Rightarrow> string \<Rightarrow> nat list
    \<Rightarrow> ir \<Rightarrow> (nat \<times> (val \<rightharpoonup> val) \<times> nat list \<times> ir) option" where
  "cloneLoopWithPreheader Before LoopDomBB OrigL VM NameSuffix Blocks F =
     do {
       ol \<leftarrow> LoopObjs F OrigL;
       let (NewLoop, F1) = newLoop F;
       F2 \<leftarrow> (case ParentLoop ol of
                Some PL \<Rightarrow> addChildLoop PL NewLoop F1
              | None \<Rightarrow> addTopLevelLoop NewLoop F1);
       OrigPH \<leftarrow> getLoopPreheader F2 OrigL;
       (NewPH, VM1, F3) \<leftarrow> CloneBasicBlock OrigPH VM NameSuffix F2;
       F4 \<leftarrow> (case ParentLoop ol of
                Some PL \<Rightarrow> addBasicBlockToLoop PL NewPH F3
              | None \<Rightarrow> Some F3);
       F5 \<leftarrow> addNewBlock NewPH LoopDomBB F4;
       (VM2, Blocks1, F6) \<leftarrow> cloneLoopBlocks (getBlocks F5 OrigL) NewLoop NameSuffix
                                (VM1(VBlock OrigPH \<mapsto> VBlock NewPH)) (Blocks @ [NewPH]) F5;
       H \<leftarrow> getHeader F6 NewLoop;
       Some (NewLoop, VM2, Blocks1,
             F6\<lparr>Layout := spliceToEnd Before H (spliceOne Before NewPH (Layout F6))\<rparr>)
     }"

subsection \<open>InstPartition: closure, cloning, pruning, annotation\<close>

text \<open>The worklist loop of \<open>populateUsedSet\<close>: the inner loop over the operands of the
  popped instruction, then the loop itself.\<close>

fun visitOperands :: "ir \<Rightarrow> nat \<Rightarrow> val list \<Rightarrow> nat list \<times> nat list \<Rightarrow> nat list \<times> nat list" where
  "visitOperands F L [] (S, Worklist) = (S, Worklist)"
| "visitOperands F L (VInst I # Vs) (S, Worklist) =
     (if (case parentOf F I of None \<Rightarrow> False | Some B \<Rightarrow> contains F L B) \<and> I \<notin> set S
      then visitOperands F L Vs (set_insert I S, Worklist @ [I])
      else visitOperands F L Vs (S, Worklist))"
| "visitOperands F L (V # Vs) (S, Worklist) = visitOperands F L Vs (S, Worklist)"

partial_function (option) closeUsedSet :: "ir \<Rightarrow> nat \<Rightarrow> nat list \<Rightarrow> nat list \<Rightarrow> nat list option" where
  "closeUsedSet F L S Worklist =
     (if Worklist = [] then Some S
      else (case Insts F (last Worklist) of
              None \<Rightarrow> None
            | Some i \<Rightarrow>
                closeUsedSet F L
                  (fst (visitOperands F L (operands i) (S, butlast Worklist)))
                  (snd (visitOperands F L (operands i) (S, butlast Worklist)))))"

declare closeUsedSet.simps [code]

fun insertTerminators :: "ir \<Rightarrow> nat list \<Rightarrow> nat list \<Rightarrow> nat list option" where
  "insertTerminators F [] S = Some S"
| "insertTerminators F (B # Bs) S =
     (case getTerminator F B of
        None \<Rightarrow> None
      | Some T \<Rightarrow> insertTerminators F Bs (set_insert T S))"

definition populateUsedSet :: "ir \<Rightarrow> InstPartition \<Rightarrow> InstPartition option" where
  "populateUsedSet F P =
     do {
       S1 \<leftarrow> insertTerminators F (getBlocks F (OrigLoop P)) (Set P);
       S2 \<leftarrow> closeUsedSet F (OrigLoop P) S1 S1;
       Some (P\<lparr>Set := S2\<rparr>)
     }"

definition Part_cloneLoopWithPreheader :: "nat \<Rightarrow> nat \<Rightarrow> nat \<Rightarrow> InstPartition \<Rightarrow> ir
    \<Rightarrow> (nat \<times> InstPartition \<times> ir) option" where
  "Part_cloneLoopWithPreheader InsertBefore LoopDomBB Index P F =
     do {
       (NewLoop, VM, Blocks, F1) \<leftarrow>
         cloneLoopWithPreheader InsertBefore LoopDomBB (OrigLoop P) (VMap P)
           (''.ldist'' @ showNat Index) (ClonedLoopBlocks P) F;
       Some (NewLoop, P\<lparr>ClonedLoop := Some NewLoop, ClonedLoopBlocks := Blocks, VMap := VM\<rparr>, F1)
     }"

definition getDistributedLoop :: "InstPartition \<Rightarrow> nat" where
  "getDistributedLoop P = (case ClonedLoop P of Some C \<Rightarrow> C | None \<Rightarrow> OrigLoop P)"

text \<open>\<open>cast<Instruction>(VMap[I])\<close> aborts when the entry is missing or no instruction.\<close>

definition getNewInst :: "InstPartition \<Rightarrow> nat \<Rightarrow> nat option" where
  "getNewInst P I =
     (if ClonedLoop P \<noteq> None
      then (case VMap P (VInst I) of Some (VInst N) \<Rightarrow> Some N | _ \<Rightarrow> None)
      else Some I)"

definition remapInstructions :: "InstPartition \<Rightarrow> ir \<Rightarrow> ir" where
  "remapInstructions P F = remapInstructionsInLoop (ClonedLoopBlocks P) (VMap P) F"

text \<open>The first loop of \<open>removeUnusedInsts\<close> collects the instructions to delete; the
  assertion is that none of them is a branch.\<close>

fun collectUnused :: "ir \<Rightarrow> InstPartition \<Rightarrow> nat list \<Rightarrow> nat list \<Rightarrow> nat list option" where
  "collectUnused F P [] Unused = Some Unused"
| "collectUnused F P (I # Is) Unused =
     (if I \<notin> set (Set P) then
        (case getNewInst P I of
           None \<Rightarrow> None
         | Some NewInst \<Rightarrow>
             if isa F Br NewInst then None
             else collectUnused F P Is (Unused @ [NewInst]))
      else collectUnused F P Is Unused)"

fun eraseUnused :: "nat list \<Rightarrow> ir \<Rightarrow> ir option" where
  "eraseUnused [] F = Some F"
| "eraseUnused (I # Is) F =
     (case Insts F I of
        None \<Rightarrow> None
      | Some i \<Rightarrow>
          eraseFromParent I
            (if \<not> use_empty F I then replaceAllUsesWith I (VUndef (ty i)) F else F)
          \<bind> eraseUnused Is)"

definition Part_removeUnusedInsts :: "InstPartition \<Rightarrow> ir \<Rightarrow> ir option" where
  "Part_removeUnusedInsts P F =
     do {
       Unused \<leftarrow> collectUnused F P (concat (map (instsOf F) (getBlocks F (OrigLoop P)))) [];
       eraseUnused (rev Unused) F
     }"

text \<open>\<open>MDNode::concatenate\<close> of the instruction's scope list with the new scope.\<close>

definition addScopes :: "nat \<Rightarrow> instruction \<Rightarrow> instruction" where
  "addScopes Scope i = i\<lparr>noalias := noalias i @ [Scope], alias_scope := alias_scope i @ [Scope]\<rparr>"

fun Part_annotateNoAlias :: "nat \<Rightarrow> nat list \<Rightarrow> InstPartition \<Rightarrow> nat list \<Rightarrow> ir \<Rightarrow> ir option" where
  "Part_annotateNoAlias Scope Fwd P [] F = Some F"
| "Part_annotateNoAlias Scope Fwd P (OrigInst # Is) F =
     (case getNewInst P OrigInst of
        None \<Rightarrow> None
      | Some I \<Rightarrow>
          (case Insts F I of
             None \<Rightarrow> None
           | Some i \<Rightarrow>
               Part_annotateNoAlias Scope Fwd P Is
                 (if (opcode i = Load \<and> I \<in> set Fwd) \<or> (opcode i = Store \<and> I \<notin> set Fwd)
                  then F\<lparr>Insts := (Insts F)(I \<mapsto> addScopes Scope i)\<rparr>
                  else F)))"

subsection \<open>InstPartitionContainer: populating, cloning, pruning\<close>

fun PC_populateUsedSet :: "ir \<Rightarrow> InstPartition list \<Rightarrow> InstPartition list option" where
  "PC_populateUsedSet F [] = Some []"
| "PC_populateUsedSet F (P # Ps) =
     do {
       P1 \<leftarrow> populateUsedSet F P;
       Ps1 \<leftarrow> PC_populateUsedSet F Ps;
       Some (P1 # Ps1)
     }"

text \<open>\<open>setupPartitionIdOnInstructions\<close>: an instruction found in a second partition gets
  the id \<open>-1\<close>.\<close>

fun setupIds :: "int \<Rightarrow> nat list \<Rightarrow> (nat \<rightharpoonup> int) \<Rightarrow> (nat \<rightharpoonup> int)" where
  "setupIds PartitionID [] M = M"
| "setupIds PartitionID (I # Is) M =
     setupIds PartitionID Is (case M I of None \<Rightarrow> M(I \<mapsto> PartitionID) | Some x \<Rightarrow> M(I \<mapsto> - 1))"

fun setupPartitionIdOnInstructions :: "int \<Rightarrow> InstPartition list \<Rightarrow> (nat \<rightharpoonup> int)
    \<Rightarrow> (nat \<rightharpoonup> int)" where
  "setupPartitionIdOnInstructions PartitionID [] M = M"
| "setupPartitionIdOnInstructions PartitionID (P # Ps) M =
     setupPartitionIdOnInstructions (PartitionID + 1) Ps (setupIds PartitionID (Set P) M)"

text \<open>The inner loop of \<open>computePartitionSetForPointers\<close>; \<open>InstToPartitionId[Inst]\<close> of
  an instruction without an entry is \<open>0\<close>, the map's default.\<close>

fun partitionOfAccess :: "(nat \<rightharpoonup> int) \<Rightarrow> nat list \<Rightarrow> int \<Rightarrow> int" where
  "partitionOfAccess M [] Partition = Partition"
| "partitionOfAccess M (I # Is) Partition =
     (let ThisPartition = (case M I of None \<Rightarrow> 0 | Some x \<Rightarrow> x)
      in if Partition = - 2 then partitionOfAccess M Is ThisPartition
         else if Partition = - 1 then Partition
         else if Partition \<noteq> ThisPartition then partitionOfAccess M Is (- 1)
         else partitionOfAccess M Is Partition)"

fun computePartitionSetForPointers :: "LoopAccessInfo \<Rightarrow> (nat \<rightharpoonup> int) \<Rightarrow> (val \<times> bool) list
    \<Rightarrow> int list option" where
  "computePartitionSetForPointers LAI M [] = Some []"
| "computePartitionSetForPointers LAI M ((Ptr, IsWrite) # Ptrs) =
     (let Partition = partitionOfAccess M (getInstructionsForAccess LAI Ptr IsWrite) (- 2)
      in if Partition = - 2 then None
         else map_option ((#) Partition) (computePartitionSetForPointers LAI M Ptrs))"

fun annotateCyclic :: "nat \<Rightarrow> nat list \<Rightarrow> InstPartition list \<Rightarrow> ir \<Rightarrow> ir option" where
  "annotateCyclic Scope Fwd [] F = Some F"
| "annotateCyclic Scope Fwd (P # Ps) F =
     (if hasDepCycle P
      then Part_annotateNoAlias Scope Fwd P (Set P) F \<bind> annotateCyclic Scope Fwd Ps
      else annotateCyclic Scope Fwd Ps F)"

text \<open>The container's \<open>annotateNoAlias\<close>: the metadata builder makes a new domain and a
  new scope in it.\<close>

definition PC_annotateNoAlias :: "nat list \<Rightarrow> InstPartition list \<Rightarrow> ir \<Rightarrow> ir option" where
  "PC_annotateNoAlias Fwd PC F =
     annotateCyclic (Suc (FreshMD F)) Fwd PC (F\<lparr>FreshMD := Suc (Suc (FreshMD F))\<rparr>)"

text \<open>The first loop of \<open>cloneLoops\<close>, over the partitions before the last in reverse:
  \<open>n\<close> partitions are still to clone, the next one is \<open>PC ! (n - 1)\<close>.\<close>

fun cloneReversed :: "nat \<Rightarrow> nat \<Rightarrow> nat \<Rightarrow> nat \<Rightarrow> nat \<Rightarrow> InstPartition list \<Rightarrow> ir
    \<Rightarrow> (nat \<times> InstPartition list \<times> ir) option" where
  "cloneReversed 0 Pred ExitBlock Index TopPH PC F = Some (TopPH, PC, F)"
| "cloneReversed (Suc n) Pred ExitBlock Index TopPH PC F =
     do {
       (NewLoop, Part, F1) \<leftarrow> Part_cloneLoopWithPreheader TopPH Pred Index (PC ! n) F;
       let Part1 = Part\<lparr>VMap := (VMap Part)(VBlock ExitBlock \<mapsto> VBlock TopPH)\<rparr>;
       let F2 = remapInstructions Part1 F1;
       TopPH1 \<leftarrow> getLoopPreheader F2 NewLoop;
       cloneReversed n Pred ExitBlock (Index - 1) TopPH1 (PC[n := Part1]) F2
     }"

text \<open>The second loop of \<open>cloneLoops\<close>, forward over neighbouring partitions.\<close>

fun updatePreheaderDoms :: "InstPartition list \<Rightarrow> ir \<Rightarrow> ir option" where
  "updatePreheaderDoms (Curr # Next # Ps) F =
     do {
       PH \<leftarrow> getLoopPreheader F (getDistributedLoop Next);
       Ex \<leftarrow> getExitingBlock F (getDistributedLoop Curr);
       F1 \<leftarrow> changeImmediateDominator PH Ex F;
       updatePreheaderDoms (Next # Ps) F1
     }"
| "updatePreheaderDoms Ps F = Some F"

definition cloneLoops :: "nat \<Rightarrow> InstPartition list \<Rightarrow> ir \<Rightarrow> (InstPartition list \<times> ir) option" where
  "cloneLoops L PC F =
     do {
       OrigPH \<leftarrow> getLoopPreheader F L;
       Pred \<leftarrow> getSinglePredecessor F OrigPH;
       ExitBlock \<leftarrow> getExitBlock F L;
       if PC = [] \<or> map Some (take 1 (instsOf F OrigPH)) \<noteq> [getTerminator F OrigPH] then None
       else do {
         (TopPH, PC1, F1) \<leftarrow> cloneReversed (length PC - 1) Pred ExitBlock (length PC - 1)
                               OrigPH PC F;
         PredTerm \<leftarrow> getTerminator F1 Pred;
         F2 \<leftarrow> updatePreheaderDoms PC1
                 (replaceUsesOfWith PredTerm (VBlock OrigPH) (VBlock TopPH) F1);
         Some (PC1, F2)
       }
     }"

fun PC_removeUnusedInsts :: "InstPartition list \<Rightarrow> ir \<Rightarrow> ir option" where
  "PC_removeUnusedInsts [] F = Some F"
| "PC_removeUnusedInsts (P # Ps) F = Part_removeUnusedInsts P F \<bind> PC_removeUnusedInsts Ps"

subsection \<open>RuntimeCheckEmitter\<close>

text \<open>Modelled from the spec: \<open>LoopAccessInfo::addRuntimeCheck\<close> is not among the sources.
  It generates the instructions of the run-time check before \<open>Loc\<close> and returns the
  first of them and the one that holds the result, or null pointers when no check is
  needed.\<close>

fun insertChecks :: "nat \<Rightarrow> nat \<Rightarrow> instruction list \<Rightarrow> nat list \<Rightarrow> ir \<Rightarrow> nat list \<times> ir" where
  "insertChecks B Loc [] acc F = (acc, F)"
| "insertChecks B Loc (c # cs) acc F =
     insertChecks B Loc cs (acc @ [Fresh F])
       (F\<lparr>Insts := (Insts F)(Fresh F \<mapsto> c\<lparr>parent := B\<rparr>),
          BBs := (BBs F)(B \<mapsto> insertBefore Loc [Fresh F] (instsOf F B)),
          Fresh := Suc (Fresh F)\<rparr>)"

definition addRuntimeCheck :: "LoopAccessInfo \<Rightarrow> nat \<Rightarrow> int list \<Rightarrow> val list \<Rightarrow> ir
    \<Rightarrow> (nat option \<times> nat option \<times> ir) option" where
  "addRuntimeCheck LAI Loc PtrToPartition Ptrs F =
     (case parentOf F Loc of
        None \<Rightarrow> None
      | Some B \<Rightarrow>
          (case insertChecks B Loc (RuntimeCheckInsts LAI PtrToPartition Ptrs) [] F of
             (news, F1) \<Rightarrow>
               Some (if news = [] then (None, None, F1)
                     else (Some (hd news), Some (last news), F1))))"

text \<open>The last part of \<open>versionLoop\<close> (from the comment ``Insert the conditional
  branch based on the result of the memchecks''): the terminator of the memcheck block
  is replaced by a conditional branch, and the exit block gets the memcheck block as
  its immediate dominator.\<close>

definition insertMemCheckBranch :: "nat \<Rightarrow> nat \<Rightarrow> nat \<Rightarrow> nat \<Rightarrow> ir \<Rightarrow> ir option" where
  "insertMemCheckBranch MemCheckBB NonDistributedLoop OrigL MemRuntimeCheck F =
     do {
       OrigTerm \<leftarrow> getTerminator F MemCheckBB;
       IfTrue \<leftarrow> getLoopPreheader F NonDistributedLoop;
       IfFalse \<leftarrow> getLoopPreheader F OrigL;
       (BI, F1) \<leftarrow> BranchInst_Create IfTrue IfFalse (VInst MemRuntimeCheck) OrigTerm F;
       F2 \<leftarrow> eraseFromParent OrigTerm F1;
       ExitBlock \<leftarrow> getExitBlock F2 OrigL;
       changeImmediateDominator ExitBlock MemCheckBB F2
     }"

text \<open>The first part of \<open>versionLoop\<close>, up to the remapping of the cloned loop: the
  memcheck block, the instruction holding the check's result, the fall-back loop, the
  map from the original loop to it, and the state.\<close>

definition versionLoopClone :: "LoopAccessInfo \<Rightarrow> nat \<Rightarrow> int list \<Rightarrow> val list \<Rightarrow> ir
    \<Rightarrow> (nat \<times> nat \<times> nat \<times> (val \<rightharpoonup> val) \<times> ir) option" where
  "versionLoopClone LAI OrigL PtrToPartition PtrsInStoreToLoadForwarding F =
     do {
       MemCheckBB \<leftarrow> getLoopPreheader F OrigL;
       Loc \<leftarrow> getTerminator F MemCheckBB;
       (FirstCheckInst, MemRuntimeCheckOpt, F1) \<leftarrow>
          addRuntimeCheck LAI Loc PtrToPartition PtrsInStoreToLoadForwarding F;
       MemRuntimeCheck \<leftarrow> MemRuntimeCheckOpt;
       H \<leftarrow> getHeader F1 OrigL;
       let F2 = setName MemCheckBB (BBName F1 H @ ''.ldist.memcheck'') F1;
       SplitPt \<leftarrow> getTerminator F2 MemCheckBB;
       (PH, F3) \<leftarrow> SplitBlock MemCheckBB SplitPt F2;
       H1 \<leftarrow> getHeader F3 OrigL;
       let F4 = setName PH (BBName F3 H1 @ ''.ph'') F3;
       (NonDistributedLoop, VM, NonDistributedLoopBlocks, F5) \<leftarrow>
          cloneLoopWithPreheader PH MemCheckBB OrigL Map.empty ''.ldist.nondist'' [] F4;
       Some (MemCheckBB, MemRuntimeCheck, NonDistributedLoop, VM,
             remapInstructionsInLoop NonDistributedLoopBlocks VM F5)
     }"

text \<open>\<open>versionLoop\<close>: the state afterwards, with the fall-back loop and the map from the
  original loop to it.\<close>

definition versionLoop :: "LoopAccessInfo \<Rightarrow> nat \<Rightarrow> int list \<Rightarrow> val list \<Rightarrow> ir
    \<Rightarrow> (nat \<times> (val \<rightharpoonup> val) \<times> ir) option" where
  "versionLoop LAI OrigL PtrToPartition PtrsInStoreToLoadForwarding F =
     do {
       (MemCheckBB, MemRuntimeCheck, NonDistributedLoop, VM, F1) \<leftarrow>
          versionLoopClone LAI OrigL PtrToPartition PtrsInStoreToLoadForwarding F;
       F2 \<leftarrow> insertMemCheckBranch MemCheckBB NonDistributedLoop OrigL MemRuntimeCheck F1;
       Some (NonDistributedLoop, VM, F2)
     }"

text \<open>The search of \<open>addPHINodes\<close> for a single-operand PHI of the exit block whose
  incoming value is \<open>DefInst\<close> (the \<open>Inst\<close> of the source): the outer \<open>option\<close> is the assertion, the inner one the
  PHI found.\<close>

fun findPHI :: "ir \<Rightarrow> nat \<Rightarrow> nat list \<Rightarrow> nat option option" where
  "findPHI F DefInst [] = None"
| "findPHI F DefInst (I # Is) =
     (case Insts F I of
        None \<Rightarrow> None
      | Some i \<Rightarrow>
          if opcode i \<noteq> PHI then Some None
          else if length (operands i) \<noteq> 1 then None
          else if operands i = [VInst DefInst] then Some (Some I)
          else findPHI F DefInst Is)"

definition addIncoming :: "nat \<Rightarrow> val \<Rightarrow> nat \<Rightarrow> ir \<Rightarrow> ir" where
  "addIncoming PN V BB F =
     (case Insts F PN of
        None \<Rightarrow> F
      | Some p \<Rightarrow> F\<lparr>Insts := (Insts F)(PN \<mapsto> p\<lparr>operands := operands p @ [V],
                                                  incoming := incoming p @ [BB]\<rparr>)\<rparr>)"

definition usedOutside :: "ir \<Rightarrow> nat \<Rightarrow> nat \<Rightarrow> bool" where
  "usedOutside F L U = (case parentOf F U of None \<Rightarrow> False | Some B \<Rightarrow> \<not> contains F L B)"

text \<open>\<open>addPHINodes\<close>.  The loop over \<open>Inst->users()\<close> rewrites a user while it walks the
  use list of \<open>Inst\<close>: \<open>replaceUsesOfWith\<close> moves the use it stands on to the use list of
  the new PHI, which holds nothing else, so the walk ends there.  The users inside the
  loop that come first are passed over, the first user outside the loop is rewritten,
  and the users after it are not visited.  The use list is taken in program order.\<close>

fun addPHINodes :: "nat \<Rightarrow> nat \<Rightarrow> (val \<rightharpoonup> val) \<Rightarrow> nat list \<Rightarrow> ir \<Rightarrow> ir option" where
  "addPHINodes OrigL NonDistributedLoop VM [] F =
     (case getExitBlock F OrigL of None \<Rightarrow> None | Some PHIBlock \<Rightarrow> Some F)"
| "addPHINodes OrigL NonDistributedLoop VM (DefInst # Is) F =
     do {
       PHIBlock \<leftarrow> getExitBlock F OrigL;
       NonDistInst \<leftarrow> (case VM (VInst DefInst) of Some (VInst N) \<Rightarrow> Some N | _ \<Rightarrow> None);
       Found \<leftarrow> findPHI F DefInst (instsOf F PHIBlock);
       (PN, F1) \<leftarrow>
          (case Found of
             Some PN \<Rightarrow> Some (PN, F)
           | None \<Rightarrow>
               do {
                 i \<leftarrow> Insts F DefInst;
                 Exiting \<leftarrow> getExitingBlock F OrigL;
                 let PN = Fresh F;
                 let G = F\<lparr>Insts := (Insts F)(PN \<mapsto> \<lparr>opcode = PHI, operands = [], incoming = [],
                                    ty = ty i, parent = PHIBlock, noalias = [], alias_scope = []\<rparr>),
                           BBs := (BBs F)(PHIBlock \<mapsto> PN # instsOf F PHIBlock),
                           Fresh := Suc (Fresh F)\<rparr>;
                 let G1 = (case filter (usedOutside G OrigL) (users G DefInst) of
                             [] \<Rightarrow> G
                           | U # Us \<Rightarrow> replaceUsesOfWith U (VInst DefInst) (VInst PN) G);
                 Some (PN, addIncoming PN (VInst DefInst) Exiting G1)
               });
       NonDistExiting \<leftarrow> getExitingBlock F1 NonDistributedLoop;
       addPHINodes OrigL NonDistributedLoop VM Is
         (addIncoming PN (VInst NonDistInst) NonDistExiting F1)
     }"

subsection \<open>The pass on one loop\<close>

definition findDefsUsedOutsideOfLoop :: "ir \<Rightarrow> nat \<Rightarrow> nat list" where
  "findDefsUsedOutsideOfLoop F L =
     filter (\<lambda>I. \<exists>U \<in> set (users F I). usedOutside F L U)
       (concat (map (instsOf F) (getBlocks F L)))"

fun seedDefsUsedOutside :: "nat \<Rightarrow> nat list \<Rightarrow> InstPartition list \<Rightarrow> InstPartition list" where
  "seedDefsUsedOutside L [] PC = PC"
| "seedDefsUsedOutside L (I # Is) PC = seedDefsUsedOutside L Is (addToNewNonCyclicPartition L I PC)"

definition val_insert :: "val \<Rightarrow> val list \<Rightarrow> val list" where
  "val_insert v vs = (if v \<in> set vs then vs else vs @ [v])"

text \<open>The store-to-load forwarding candidates: the instructions and their pointer
  operands.  \<open>getPointerOperand\<close> is operand 0 of a load and operand 1 of a store.\<close>

fun collectForwarding :: "ir \<Rightarrow> nat list \<Rightarrow> Dependence list \<Rightarrow> nat list \<times> val list
    \<Rightarrow> (nat list \<times> val list) option" where
  "collectForwarding F MemInsts [] acc = Some acc"
| "collectForwarding F MemInsts (Dep # Deps) (InstsFwd, PtrsFwd) =
     (if isPossiblyBackward Dep then
        (if Source Dep < length MemInsts \<and> Destination Dep < length MemInsts then
           (case (Insts F (MemInsts ! Source Dep), Insts F (MemInsts ! Destination Dep)) of
              (Some LD, Some ST) \<Rightarrow>
                if opcode LD = Load \<and> opcode ST = Store then
                  (if operands LD = [] \<or> length (operands ST) < 2 then None
                   else collectForwarding F MemInsts Deps
                          (set_insert (MemInsts ! Destination Dep)
                             (set_insert (MemInsts ! Source Dep) InstsFwd),
                           val_insert (operands ST ! 1) (val_insert (operands LD ! 0) PtrsFwd)))
                else collectForwarding F MemInsts Deps (InstsFwd, PtrsFwd)
            | _ \<Rightarrow> None)
         else None)
      else collectForwarding F MemInsts Deps (InstsFwd, PtrsFwd))"

text \<open>The command-line options of the pass.  \<open>loop-distribute-verify\<close>, off by default,
  only re-validates the loop nest and the dominator tree and is left out.\<close>

record Options =
  DistributeNonIfConvertible :: bool
  AddMemcheckForStoreToLoadElimination :: bool

text \<open>Two statements of \<open>processLoop\<close>, named here to keep its definition readable: the
  split that leaves the preheader with its terminator only and with a single
  predecessor, and the versioning of the loop when run-time checks are needed.\<close>

definition splitPreheader :: "nat \<Rightarrow> ir \<Rightarrow> ir option" where
  "splitPreheader PH F =
     do {
       PHTerm \<leftarrow> getTerminator F PH;
       if getSinglePredecessor F PH = None
            \<or> map Some (take 1 (instsOf F PH)) \<noteq> [Some PHTerm]
       then map_option snd (SplitBlock PH PHTerm F)
       else Some F
     }"

definition versionIfNeeded :: "LoopAccessInfo \<Rightarrow> nat \<Rightarrow> int list \<Rightarrow> val list \<Rightarrow> nat list
    \<Rightarrow> nat list \<Rightarrow> InstPartition list \<Rightarrow> ir \<Rightarrow> ir option" where
  "versionIfNeeded LAI L PtrToPartition PtrsFwd InstsFwd DefsUsedOutside PC F =
     (if needsAnyChecking LAI PtrToPartition PtrsFwd then
        do {
          (NonDistributedLoop, VM, G1) \<leftarrow> versionLoop LAI L PtrToPartition PtrsFwd F;
          G2 \<leftarrow> addPHINodes L NonDistributedLoop VM DefsUsedOutside G1;
          if InstsFwd \<noteq> [] then PC_annotateNoAlias InstsFwd PC G2 else Some G2
        }
      else Some F)"

text \<open>\<open>processLoop\<close>.  Its first statement asserts that the loop has no sub-loops;
  \<open>runOnFunction\<close> collects the loops with \<open>L->empty()\<close> only, and the model takes the
  loop as it is handed over.\<close>

definition processLoop :: "Options \<Rightarrow> LoopAccessInfo \<Rightarrow> nat \<Rightarrow> ir \<Rightarrow> (bool \<times> ir) option" where
  "processLoop Opts LAI L F =
     (case getLoopPreheader F L of
        None \<Rightarrow> Some (False, F)
      | Some PH \<Rightarrow>
     if getExitBlock F L = None then Some (False, F)
     else if canVectorizeMemory LAI then Some (False, F)
     else (case getInterestingDependences LAI of
        None \<Rightarrow> Some (False, F)
      | Some Deps \<Rightarrow>
     if Deps = [] then Some (False, F)
     else do {
       MID \<leftarrow> MemoryInstructionDependences (getMemoryInstructions LAI) Deps;
       PC0 \<leftarrow> seedPartitions L MID 0 [];
       let DefsUsedOutside = findDefsUsedOutsideOfLoop F L;
       let PC1 = seedDefsUsedOutside L DefsUsedOutside PC0;
       if length PC1 < 2 then Some (False, F)
       else do {
         let PC2 = mergeBeforePopulating (DistributeNonIfConvertible Opts) F
                     (blockNeedsPredication LAI) PC1;
         if length PC2 < 2 then Some (False, F)
         else do {
           PC3 \<leftarrow> PC_populateUsedSet F PC2;
           (Merged, PC4) \<leftarrow> mergeToAvoidDuplicatedLoads F PC3;
           if Merged \<and> length PC4 < 2 then Some (False, F)
           else do {
             let InstToPartitionId = setupPartitionIdOnInstructions 0 PC4 Map.empty;
             F1 \<leftarrow> splitPreheader PH F;
             (InstsFwd, PtrsFwd) \<leftarrow>
                (if AddMemcheckForStoreToLoadElimination Opts
                 then collectForwarding F1 (getMemoryInstructions LAI) Deps ([], [])
                 else Some ([], []));
             PtrToPartition \<leftarrow> computePartitionSetForPointers LAI InstToPartitionId (Pointers LAI);
             F2 \<leftarrow> versionIfNeeded LAI L PtrToPartition PtrsFwd InstsFwd DefsUsedOutside PC4 F1;
             (PC5, F3) \<leftarrow> cloneLoops L PC4 F2;
             F4 \<leftarrow> PC_removeUnusedInsts PC5 F3;
             Some (True, F4)
           }
         }
       }
     }))"

subsection \<open>An example function\<close>

text \<open>A loop \<open>for (i = 0; i < 3; i++) { r = B[i]; B[i+1] = r + 1; A[i] = i * 2; }\<close> whose
  next \<open>i\<close> is returned after the loop: entry block 5, preheader 2, the loop's only
  block 3, exit block 4; the loop object is 50.\<close>

definition mkInst :: "opcode \<Rightarrow> val list \<Rightarrow> nat list \<Rightarrow> nat \<Rightarrow> instruction" where
  "mkInst oc ops inc B =
     \<lparr>opcode = oc, operands = ops, incoming = inc, ty = 1, parent = B,
      noalias = [], alias_scope = []\<rparr>"

definition exInsts :: "nat \<rightharpoonup> instruction" where
  "exInsts = map_of
     [(10, mkInst Br [VBlock 2] [] 5),
      (11, mkInst Br [VBlock 3] [] 2),
      (20, mkInst PHI [VConst 0, VInst 27] [2, 3] 3),
      (21, mkInst OtherInst [VConst 100, VInst 20] [] 3),
      (22, mkInst Load [VInst 21] [] 3),
      (23, mkInst OtherInst [VInst 22, VConst 1] [] 3),
      (27, mkInst OtherInst [VInst 20, VConst 1] [] 3),
      (24, mkInst OtherInst [VConst 100, VInst 27] [] 3),
      (25, mkInst Store [VInst 23, VInst 24] [] 3),
      (26, mkInst OtherInst [VInst 20, VConst 2] [] 3),
      (28, mkInst OtherInst [VConst 101, VInst 20] [] 3),
      (29, mkInst Store [VInst 26, VInst 28] [] 3),
      (30, mkInst OtherInst [VInst 27, VConst 3] [] 3),
      (31, mkInst Br [VInst 30, VBlock 3, VBlock 4] [] 3),
      (40, mkInst OtherTerm [VInst 27] [] 4)]"

definition exF :: ir where
  "exF =
     \<lparr>Insts = exInsts,
      BBs = map_of [(5, [10]), (2, [11]),
                    (3, [20, 21, 22, 23, 27, 24, 25, 26, 28, 29, 30, 31]), (4, [40])],
      BBName = (\<lambda>b. []),
      Layout = [5, 2, 3, 4],
      IDom = map_of [(5, None), (2, Some 5), (3, Some 2), (4, Some 3)],
      LoopObjs = map_of [(50, \<lparr>LBlocks = [3], ParentLoop = None, SubLoops = []\<rparr>)],
      TopLevelLoops = [50],
      BBMap = map_of [(3, 50)],
      Fresh = 60,
      FreshMD = 0\<rparr>"

text \<open>The dependence analysis of the example: the load of \<open>B[i]\<close> and the store to
  \<open>B[i+1]\<close> form a possibly-backward dependence; the three pointers need a run-time
  check, which takes two instructions.\<close>

definition exLAI :: LoopAccessInfo where
  "exLAI =
     \<lparr>canVectorizeMemory = False,
      getInterestingDependences =
        Some [\<lparr>Source = 0, Destination = 1, isPossiblyBackward = True\<rparr>],
      getMemoryInstructions = [22, 25, 29],
      Pointers = [(VInst 21, False), (VInst 24, True), (VInst 28, True)],
      getInstructionsForAccess =
        (\<lambda>Ptr IsWrite. if Ptr = VInst 21 then [22] else if Ptr = VInst 24 then [25]
                        else if Ptr = VInst 28 then [29] else []),
      needsAnyChecking = (\<lambda>PtrToPartition Ptrs. True),
      RuntimeCheckInsts =
        (\<lambda>PtrToPartition Ptrs.
           [mkInst OtherInst [VConst 100, VConst 101] [] 0, mkInst OtherInst [VConst 1] [] 0]),
      blockNeedsPredication = (\<lambda>B. False)\<rparr>"

definition exOpts :: Options where
  "exOpts = \<lparr>DistributeNonIfConvertible = False, AddMemcheckForStoreToLoadElimination = True\<rparr>"

text \<open>The example when the loop is versioned: the state in which the branch on the
  run-time check is created, and the state \<open>versionLoop\<close> leaves.\<close>

definition exCloned :: ir where
  "exCloned = snd (snd (snd (snd (the (versionLoopClone exLAI 50 [0, 0, 1]
                 [VInst 21, VInst 24] exF)))))"

definition exVersioned :: ir where
  "exVersioned = snd (snd (the (versionLoop exLAI 50 [0, 0, 1] [VInst 21, VInst 24] exF)))"

subsection \<open>The stages in the order the specification gives\<close>

text \<open>\<open>processLoop\<close> with its stages in the order of the specification's control flow:
  partition building, partition merging, transitive-closure population, then loop
  cloning and dead-instruction pruning, and after those the conditional run-time check
  emission and alias annotation.  It is compared with \<open>processLoop\<close> below.\<close>

definition processLoop_claimed_order :: "Options \<Rightarrow> LoopAccessInfo \<Rightarrow> nat \<Rightarrow> ir
    \<Rightarrow> (bool \<times> ir) option" where
  "processLoop_claimed_order Opts LAI L F =
     (case getLoopPreheader F L of
        None \<Rightarrow> Some (False, F)
      | Some PH \<Rightarrow>
     if getExitBlock F L = None then Some (False, F)
     else if canVectorizeMemory LAI then Some (False, F)
     else (case getInterestingDependences LAI of
        None \<Rightarrow> Some (False, F)
      | Some Deps \<Rightarrow>
     if Deps = [] then Some (False, F)
     else do {
       MID \<leftarrow> MemoryInstructionDependences (getMemoryInstructions LAI) Deps;
       PC0 \<leftarrow> seedPartitions L MID 0 [];
       let DefsUsedOutside = findDefsUsedOutsideOfLoop F L;
       let PC1 = seedDefsUsedOutside L DefsUsedOutside PC0;
       if length PC1 < 2 then Some (False, F)
       else do {
         let PC2 = mergeBeforePopulating (DistributeNonIfConvertible Opts) F
                     (blockNeedsPredication LAI) PC1;
         if length PC2 < 2 then Some (False, F)
         else do {
           (Merged, PC3) \<leftarrow> mergeToAvoidDuplicatedLoads F PC2;
           if Merged \<and> length PC3 < 2 then Some (False, F)
           else do {
             PC4 \<leftarrow> PC_populateUsedSet F PC3;
             let InstToPartitionId = setupPartitionIdOnInstructions 0 PC4 Map.empty;
             F1 \<leftarrow> splitPreheader PH F;
             (InstsFwd, PtrsFwd) \<leftarrow>
                (if AddMemcheckForStoreToLoadElimination Opts
                 then collectForwarding F1 (getMemoryInstructions LAI) Deps ([], [])
                 else Some ([], []));
             PtrToPartition \<leftarrow> computePartitionSetForPointers LAI InstToPartitionId (Pointers LAI);
             (PC5, F2) \<leftarrow> cloneLoops L PC4 F1;
             F3 \<leftarrow> PC_removeUnusedInsts PC5 F2;
             F4 \<leftarrow> versionIfNeeded LAI L PtrToPartition PtrsFwd InstsFwd DefsUsedOutside PC5 F3;
             Some (True, F4)
           }
         }
       }
     }))"

text \<open>The example distributed by \<open>processLoop\<close>, and by the stages in the order of the
  specification.\<close>

definition exDistributed :: ir where
  "exDistributed = snd (the (processLoop exOpts exLAI 50 exF))"

definition exClaimedOrder :: ir where
  "exClaimedOrder = snd (the (processLoop_claimed_order exOpts exLAI 50 exF))"

subsection \<open>Auxiliary notions for the alias annotation\<close>

text \<open>The instructions \<open>annotateNoAlias\<close> selects, and carrying a scope in both lists.\<close>

definition annotated :: "ir \<Rightarrow> nat list \<Rightarrow> nat \<Rightarrow> bool" where
  "annotated F Fwd I = (isa F Load I \<and> I \<in> set Fwd \<or> isa F Store I \<and> I \<notin> set Fwd)"

definition hasScope :: "ir \<Rightarrow> nat \<Rightarrow> nat \<Rightarrow> bool" where
  "hasScope F Scope I =
     (case Insts F I of
        None \<Rightarrow> False
      | Some i \<Rightarrow> Scope \<in> set (noalias i) \<and> Scope \<in> set (alias_scope i))"

definition uncloned :: "InstPartition list \<Rightarrow> bool" where
  "uncloned PC = (\<forall>P \<in> set PC. ClonedLoop P = None)"

subsection \<open>Auxiliary notions for the pruning\<close>

text \<open>The instructions of the loop in block order, and those a partition does not
  hold: the candidates \<open>removeUnusedInsts\<close> walks over.\<close>

definition loopInsts :: "ir \<Rightarrow> nat \<Rightarrow> nat list" where
  "loopInsts F L = concat (map (instsOf F) (getBlocks F L))"

definition unusedInsts :: "ir \<Rightarrow> InstPartition \<Rightarrow> nat list" where
  "unusedInsts F P = filter (\<lambda>I. I \<notin> set (Set P)) (loopInsts F (OrigLoop P))"

text \<open>In well-formed IR a branch instruction is the terminator of its block.\<close>

definition branchesTerminate :: "ir \<Rightarrow> nat \<Rightarrow> bool" where
  "branchesTerminate F L =
     (\<forall>B \<in> set (getBlocks F L). \<forall>I \<in> set (instsOf F B).
        isa F Br I \<longrightarrow> getTerminator F B = Some I)"

text \<open>What the cloner leaves: each instruction of the loop has its copy in the value map
  of a cloned partition, and the copy of an instruction that is no branch is no
  branch.\<close>

definition clonesKeepKind :: "ir \<Rightarrow> InstPartition \<Rightarrow> bool" where
  "clonesKeepKind F P =
     (\<forall>I \<in> set (unusedInsts F P).
        case getNewInst P I of
          None \<Rightarrow> False
        | Some N \<Rightarrow> isa F Br N \<longrightarrow> isa F Br I)"

text \<open>An operand after the instructions \<open>Is\<close> have been deleted from \<open>F\<close>.\<close>

definition undefFor :: "ir \<Rightarrow> nat list \<Rightarrow> val \<Rightarrow> val" where
  "undefFor F Is v =
     (case v of
        VInst I \<Rightarrow>
          (if I \<in> set Is then (case Insts F I of None \<Rightarrow> v | Some i \<Rightarrow> VUndef (ty i)) else v)
      | _ \<Rightarrow> v)"

definition withUndef :: "ir \<Rightarrow> nat list \<Rightarrow> instruction \<Rightarrow> instruction" where
  "withUndef F Is j = j\<lparr>operands := map (undefFor F Is) (operands j)\<rparr>"

subsection \<open>The example before pruning\<close>

text \<open>The partitions of the example as \<open>processLoop\<close> builds them, the versioned and
  annotated function, and the partitions and the function after \<open>cloneLoops\<close>.\<close>

definition exSeeded :: "InstPartition list" where
  "exSeeded =
     seedDefsUsedOutside 50 (findDefsUsedOutsideOfLoop exF 50)
       (the (seedPartitions 50
          (the (MemoryInstructionDependences (getMemoryInstructions exLAI)
             (the (getInterestingDependences exLAI)))) 0 []))"

definition exPC :: "InstPartition list" where
  "exPC =
     snd (the (mergeToAvoidDuplicatedLoads exF
       (the (PC_populateUsedSet exF
          (mergeBeforePopulating (DistributeNonIfConvertible exOpts) exF
             (blockNeedsPredication exLAI) exSeeded)))))"

definition exAnnotated :: ir where
  "exAnnotated =
     the (versionIfNeeded exLAI 50 [0, 0, 1] [VInst 21, VInst 24] [22, 25] [27] exPC exF)"

definition exChained :: "InstPartition list \<times> ir" where
  "exChained = the (cloneLoops 50 exPC exAnnotated)"

subsection \<open>Auxiliary notions for the dominators of the cloned loops\<close>

text \<open>The copy a cloned partition has of a block, and the preheaders of the loops of
  the partitions after the first.\<close>

definition cloneOf :: "InstPartition \<Rightarrow> nat \<Rightarrow> nat" where
  "cloneOf Q BB = MapBlock (VMap Q) BB"

definition chainPreheaders :: "ir \<Rightarrow> InstPartition list \<Rightarrow> nat list" where
  "chainPreheaders F PC =
     List.map_filter (\<lambda>Q. getLoopPreheader F (getDistributedLoop Q)) (tl PC)"

text \<open>A set of loops that holds the parent of each of its members.\<close>

definition parentsClosed :: "ir \<Rightarrow> nat set \<Rightarrow> bool" where
  "parentsClosed F A =
     (\<forall>l \<in> A. \<forall>lo p. LoopObjs F l = Some lo \<longrightarrow> ParentLoop lo = Some p \<longrightarrow> p \<in> A)"

text \<open>What \<open>cloneLoops\<close> is called on: partitions of the loop \<open>L\<close> that are not cloned
  yet; a loop whose address and whose blocks' addresses are in use (below the next
  unused address), whose blocks are listed once, and which is not among its own
  ancestors (\<open>A\<close> holds the ancestors); and a dominator tree in which the exit block of
  the loop is not the immediate dominator of a block of the loop.\<close>

definition readyToClone :: "ir \<Rightarrow> nat \<Rightarrow> nat set \<Rightarrow> InstPartition list \<Rightarrow> bool" where
  "readyToClone F L A PC =
     ((\<forall>P \<in> set PC. OrigLoop P = L \<and> ClonedLoop P = None \<and> VMap P = Map.empty) \<and>
      distinct (getBlocks F L) \<and>
      L < Fresh F \<and>
      (\<forall>b \<in> set (getBlocks F L). b < Fresh F) \<and>
      parentsClosed F A \<and> L \<notin> A \<and>
      (\<forall>lo p. LoopObjs F L = Some lo \<longrightarrow> ParentLoop lo = Some p \<longrightarrow> p \<in> A) \<and>
      (\<forall>E BB. getExitBlock F L = Some E \<longrightarrow> BB \<in> set (getBlocks F L) \<longrightarrow>
               IDom F BB \<noteq> Some (Some E)))"

subsection \<open>Well-formed functions\<close>

text \<open>What the IR guarantees of a function, as far as the properties below need it:
  the addresses in use lie below the next unused one, and a block lists each of its
  instructions once, each of them knowing the block as its parent.\<close>

definition wfIR :: "ir \<Rightarrow> bool" where
  "wfIR F =
     ((\<forall>n. Insts F n \<noteq> None \<longrightarrow> n < Fresh F) \<and>
      (\<forall>b is. BBs F b = Some is \<longrightarrow>
         distinct is \<and> (\<forall>I \<in> set is. parentOf F I = Some b)))"

text \<open>What the loop nest guarantees of the loop \<open>L\<close>: its address and the addresses of
  its blocks are in use; it is not among its own ancestors, \<open>A\<close> being a set of loops
  that holds the parent of each of its members, the parent of \<open>L\<close>, and not \<open>L\<close>; and a
  block outside \<open>L\<close> that the nest maps to a loop is mapped to a loop of \<open>A\<close>.\<close>

definition wfLoop :: "ir \<Rightarrow> nat \<Rightarrow> nat set \<Rightarrow> bool" where
  "wfLoop F L A =
     (L < Fresh F \<and>
      (\<forall>b \<in> set (getBlocks F L). b < Fresh F) \<and>
      parentsClosed F A \<and> L \<notin> A \<and>
      (\<forall>lo p. LoopObjs F L = Some lo \<longrightarrow> ParentLoop lo = Some p \<longrightarrow> p \<in> A) \<and>
      (\<forall>b l. BBMap F b = Some l \<longrightarrow> b \<notin> set (getBlocks F L) \<longrightarrow> l \<in> A))"

text \<open>Two relations between a state and a later one.  In the first the later state
  has the same blocks, loops and addresses, and each instruction has kept its kind and
  its parent.  In the second the loop \<open>L\<close> has kept its blocks, these have gained no
  instruction, and an instruction below the first state's next address, if it is still
  there, has kept its kind.\<close>

definition sameShape :: "ir \<Rightarrow> ir \<Rightarrow> bool" where
  "sameShape F G =
     (BBs G = BBs F \<and> Fresh G = Fresh F \<and> LoopObjs G = LoopObjs F \<and> BBMap G = BBMap F \<and>
      (\<forall>I. map_option opcode (Insts G I) = map_option opcode (Insts F I)) \<and>
      (\<forall>I. map_option parent (Insts G I) = map_option parent (Insts F I)))"

definition keeps :: "nat \<Rightarrow> ir \<Rightarrow> ir \<Rightarrow> bool" where
  "keeps L F G =
     (Fresh F \<le> Fresh G \<and> LoopObjs G L = LoopObjs F L \<and>
      (\<forall>B \<in> set (getBlocks F L). set (instsOf G B) \<subseteq> set (instsOf F B)) \<and>
      (\<forall>I i. I < Fresh F \<longrightarrow> Insts G I = Some i \<longrightarrow>
             (\<exists>i0. Insts F I = Some i0 \<and> opcode i0 = opcode i)))"

definition good :: "nat \<Rightarrow> ir \<Rightarrow> bool" where
  "good L F = (wfIR F \<and> (\<exists>A. wfLoop F L A))"

text \<open>What the cloner leaves in the value map of a partition: each instruction the loop
  holds has a copy below the next address, and the copy, as long as it is there, is of
  the kind of the instruction.\<close>

definition clonesCopy :: "nat \<Rightarrow> ir \<Rightarrow> InstPartition \<Rightarrow> bool" where
  "clonesCopy L G P =
     (\<forall>B \<in> set (getBlocks G L). \<forall>I \<in> set (instsOf G B).
        \<exists>N. VMap P (VInst I) = Some (VInst N) \<and> N < Fresh G \<and>
            (\<forall>n. Insts G N = Some n \<longrightarrow> (\<exists>i. Insts G I = Some i \<and> opcode n = opcode i)))"

section \<open>Properties\<close>

subsection \<open>The dependence stream\<close>


lemma wfDeps_Cons:
  "wfDeps n (d # ds) \<longleftrightarrow>
     (isPossiblyBackward d \<longrightarrow> Source d < Destination d \<and> Destination d < n) \<and> wfDeps n ds"
  by (auto simp: wfDeps_def)

lemma addDependences_char:
  "wfDeps (length acc) ds \<Longrightarrow>
   \<exists>es. addDependences ds acc = Some es \<and> length es = length acc \<and>
     (\<forall>i < length acc. Inst (es ! i) = Inst (acc ! i) \<and>
        NumUnsafeDependencesStartOrEnd (es ! i) =
          NumUnsafeDependencesStartOrEnd (acc ! i) + of_nat (numStarts ds i) - of_nat (numEnds ds i))"
proof (induction ds arbitrary: acc)
  case Nil
  then show ?case by (simp add: numStarts_def numEnds_def)
next
  case (Cons d ds)
  from Cons.prems have wf: "wfDeps (length acc) ds"
    and dd: "isPossiblyBackward d \<Longrightarrow> Source d < Destination d \<and> Destination d < length acc"
    by (simp_all add: wfDeps_Cons)
  show ?case
  proof (cases "isPossiblyBackward d")
    case False
    with Cons.IH [OF wf] show ?thesis
      by (simp add: numStarts_def numEnds_def)
  next
    case True
    define A1 where "A1 = acc[Source d := (acc ! Source d)\<lparr>NumUnsafeDependencesStartOrEnd :=
                    NumUnsafeDependencesStartOrEnd (acc ! Source d) + 1\<rparr>]"
    define A2 where "A2 = A1[Destination d := (A1 ! Destination d)\<lparr>NumUnsafeDependencesStartOrEnd :=
                    NumUnsafeDependencesStartOrEnd (A1 ! Destination d) - 1\<rparr>]"
    have len: "length A1 = length acc" "length A2 = length acc"
      by (simp_all add: A1_def A2_def)
    have u1: "updEntry (\<lambda>n. n + 1) (Source d) acc = Some A1"
      using dd [OF True] by (simp add: updEntry_def A1_def)
    have u2: "updEntry (\<lambda>n. n - 1) (Destination d) A1 = Some A2"
      using dd [OF True] len by (simp add: updEntry_def A2_def)
    have step: "addDependences (d # ds) acc = addDependences ds A2"
      using True u1 u2 by simp
    from wf len have "wfDeps (length A2) ds" by simp
    from Cons.IH [OF this] obtain es where es: "addDependences ds A2 = Some es"
      "length es = length A2"
      "\<forall>i < length A2. Inst (es ! i) = Inst (A2 ! i) \<and>
        NumUnsafeDependencesStartOrEnd (es ! i) =
          NumUnsafeDependencesStartOrEnd (A2 ! i) + of_nat (numStarts ds i) - of_nat (numEnds ds i)"
      by blast
    have A2i: "Inst (A2 ! i) = Inst (acc ! i) \<and>
        NumUnsafeDependencesStartOrEnd (A2 ! i) =
          NumUnsafeDependencesStartOrEnd (acc ! i) + (if Source d = i then 1 else 0)
            - (if Destination d = i then 1 else 0)" if "i < length acc" for i
      using that dd [OF True] by (auto simp: A1_def A2_def nth_list_update)
    have cnt: "numStarts (d # ds) i = (if Source d = i then 1 else 0) + numStarts ds i"
      "numEnds (d # ds) i = (if Destination d = i then 1 else 0) + numEnds ds i" for i
      using True by (simp_all add: numStarts_def numEnds_def)
    show ?thesis
      unfolding step using es len A2i by (auto simp: cnt)
  qed
qed


lemma MID_char:
  assumes "wfDeps (length Is) Deps"
  shows "\<exists>es. MemoryInstructionDependences Is Deps = Some es \<and> length es = length Is \<and>
     map Inst es = Is \<and>
     (\<forall>i < length Is. NumUnsafeDependencesStartOrEnd (es ! i) =
          of_nat (numStarts Deps i) - of_nat (numEnds Deps i))"
proof -
  let ?acc = "map (\<lambda>I. \<lparr>Inst = I, NumUnsafeDependencesStartOrEnd = 0\<rparr>) Is"
  from assms have "wfDeps (length ?acc) Deps" by simp
  from addDependences_char [OF this] obtain es where es:
    "addDependences Deps ?acc = Some es" "length es = length Is"
    "\<forall>i < length Is. Inst (es ! i) = Inst (?acc ! i) \<and>
        NumUnsafeDependencesStartOrEnd (es ! i) =
          NumUnsafeDependencesStartOrEnd (?acc ! i) + of_nat (numStarts Deps i) - of_nat (numEnds Deps i)"
    by auto
  have "map Inst es = Is"
    using es(2,3) by (auto intro!: nth_equalityI)
  with es show ?thesis
    by (auto simp: MemoryInstructionDependences_def)
qed

lemma count_split:
  "length (filter (\<lambda>d. P d \<and> (Q d \<or> R d)) xs) + length (filter (\<lambda>d. P d \<and> Q d \<and> R d) xs)
     = length (filter (\<lambda>d. P d \<and> Q d) xs) + length (filter (\<lambda>d. P d \<and> R d) xs)"
  by (induction xs) auto

lemma startedBefore_Suc: "startedBefore Deps (Suc k) = startedBefore Deps k + numStarts Deps k"
  unfolding startedBefore_def numStarts_def
  by (induction Deps) (auto simp: less_Suc_eq)

lemma endedBefore_Suc: "endedBefore Deps (Suc k) = endedBefore Deps k + numEnds Deps k"
  unfolding endedBefore_def numEnds_def
  by (induction Deps) (auto simp: less_Suc_eq)

lemma started_eq_ended_plus_active:
  "wfDeps n Deps \<Longrightarrow> startedBefore Deps k = endedBefore Deps k + activeBefore Deps k"
  unfolding startedBefore_def endedBefore_def activeBefore_def
  by (induction Deps) (auto simp: wfDeps_Cons)

lemma activeAfter_eq: "activeAfter Deps i = activeBefore Deps (Suc i)"
  unfolding activeAfter_def activeBefore_def
  by (rule arg_cong [where f = length], rule filter_cong) (auto simp: less_Suc_eq_le)

lemma prefix_sum_words:
  assumes "\<forall>i < length es. NumUnsafeDependencesStartOrEnd (es ! i) =
          of_nat (numStarts Deps i) - of_nat (numEnds Deps i)"
    and "k \<le> length es"
  shows "sum_list (map NumUnsafeDependencesStartOrEnd (take k es))
           = of_nat (startedBefore Deps k) - of_nat (endedBefore Deps k)"
  using assms(2)
proof (induction k)
  case 0
  then show ?case by (simp add: startedBefore_def endedBefore_def)
next
  case (Suc k)
  then have k: "k < length es" by simp
  have "take (Suc k) es = take k es @ [es ! k]"
    using k by (simp add: take_Suc_conv_app_nth)
  then show ?case
    using Suc assms(1) k by (simp add: startedBefore_Suc endedBefore_Suc)
qed

lemma prefix_sum_active:
  assumes "\<forall>i < length es. NumUnsafeDependencesStartOrEnd (es ! i) =
          of_nat (numStarts Deps i) - of_nat (numEnds Deps i)"
    and "k \<le> length es" and "wfDeps n Deps"
  shows "sum_list (map NumUnsafeDependencesStartOrEnd (take k es))
           = of_nat (activeBefore Deps k)"
  using prefix_sum_words [OF assms(1,2)] started_eq_ended_plus_active [OF assms(3), of k]
  by simp

lemma activeBefore_le: "activeBefore Deps k \<le> length Deps"
  unfolding activeBefore_def by simp

lemma sint_of_nat_small:
  "n < 2 ^ 31 \<Longrightarrow> sint (of_nat n :: 32 word) = int n"
proof -
  assume n: "n < 2 ^ 31"
  have "sint (of_nat n :: 32 word) = signed_take_bit 31 (int n)"
    by (simp add: signed_of_nat)
  also have "\<dots> = int n"
    using n by (intro signed_take_bit_int_eq_self) auto
  finally show ?thesis .
qed


lemma of_nat_word32_eq_0:
  "n < 2 ^ 31 \<Longrightarrow> (of_nat n :: 32 word) = 0 \<longleftrightarrow> n = 0"
proof -
  assume n: "n < 2 ^ 31"
  have "unat (of_nat n :: 32 word) = n"
    using n by (simp add: unat_of_nat)
  then show ?thesis
    by (auto simp: unat_eq_0 [symmetric] simp del: unat_eq_0)
qed

lemma numStarts_le: "numStarts Deps k \<le> length Deps"
  unfolding numStarts_def by simp

lemma numStarts_pos: "numStarts Deps k \<noteq> 0 \<longleftrightarrow> startsUnsafe Deps k"
  unfolding numStarts_def startsUnsafe_def
  by (auto simp: filter_empty_conv)

lemma numEnds_zero:
  "wfDeps n Deps \<Longrightarrow> activeBefore Deps k = 0 \<Longrightarrow> numEnds Deps k = 0"
  unfolding numEnds_def activeBefore_def wfDeps_def
  by (auto simp: filter_empty_conv)

lemma active_step:
  assumes "wfDeps n Deps"
  shows "(of_nat (activeBefore Deps k) :: 32 word) + (of_nat (numStarts Deps k) - of_nat (numEnds Deps k))
          = of_nat (activeBefore Deps (Suc k))"
proof -
  have a: "startedBefore Deps k = endedBefore Deps k + activeBefore Deps k"
    and b: "startedBefore Deps (Suc k) = endedBefore Deps (Suc k) + activeBefore Deps (Suc k)"
    using started_eq_ended_plus_active [OF assms] by blast+
  have "activeBefore Deps k + numStarts Deps k = activeBefore Deps (Suc k) + numEnds Deps k"
    using a b by (simp add: startedBefore_Suc endedBefore_Suc)
  then have "(of_nat (activeBefore Deps k + numStarts Deps k) :: 32 word)
               = of_nat (activeBefore Deps (Suc k) + numEnds Deps k)"
    by simp
  then show ?thesis by (simp add: algebra_simps)
qed

lemma seed_refines:
  assumes wf: "wfDeps (length Is) Deps" and small: "length Deps < 2 ^ 31"
    and len: "length es = length Is" and insts: "map Inst es = Is"
    and num: "\<forall>i < length Is. NumUnsafeDependencesStartOrEnd (es ! i) =
          of_nat (numStarts Deps i) - of_nat (numEnds Deps i)"
  shows "k \<le> length Is \<Longrightarrow>
         seedPartitions L (drop k es) (of_nat (activeBefore Deps k)) PC
           = Some (seedPartitions_spec L Deps (drop k Is) k PC)"
proof (induction "length Is - k" arbitrary: k PC)
  case 0
  then show ?case using len by simp
next
  case (Suc m)
  then have k: "k < length Is" by simp
  have de: "drop k es = es ! k # drop (Suc k) es"
    using k len by (simp add: Cons_nth_drop_Suc)
  have di: "drop k Is = Is ! k # drop (Suc k) Is"
    using k by (simp add: Cons_nth_drop_Suc)
  have ik: "Inst (es ! k) = Is ! k"
    using insts k len by (metis nth_map)
  have nk: "NumUnsafeDependencesStartOrEnd (es ! k) =
          of_nat (numStarts Deps k) - of_nat (numEnds Deps k)"
    using num k by simp
  have ab: "activeBefore Deps j < 2 ^ 31" for j
    using activeBefore_le [of Deps j] small by simp
  have act0: "(of_nat (activeBefore Deps k) :: 32 word) \<noteq> 0 \<longleftrightarrow> activeBefore Deps k \<noteq> 0"
    using of_nat_word32_eq_0 [OF ab] by simp
  have cond: "((of_nat (activeBefore Deps k) :: 32 word) \<noteq> 0
                 \<or> NumUnsafeDependencesStartOrEnd (es ! k) > 0)
              \<longleftrightarrow> (activeBefore Deps k \<noteq> 0 \<or> startsUnsafe Deps k)"
  proof (cases "activeBefore Deps k = 0")
    case True
    have "numStarts Deps k < 2 ^ 31"
      using numStarts_le [of Deps k] small by simp
    then have "(of_nat (numStarts Deps k) :: 32 word) = 0 \<longleftrightarrow> numStarts Deps k = 0"
      by (rule of_nat_word32_eq_0)
    then show ?thesis
      using True numEnds_zero [OF wf True] nk numStarts_pos [of Deps k]
      by (simp add: word_gt_0)
  next
    case False
    then show ?thesis using act0 by simp
  qed
  have step: "(of_nat (activeBefore Deps k) :: 32 word) + NumUnsafeDependencesStartOrEnd (es ! k)
               = of_nat (activeBefore Deps (Suc k))"
    using active_step [OF wf] nk by simp
  have nonneg: "0 \<le> sint (of_nat (activeBefore Deps (Suc k)) :: 32 word)"
    using sint_of_nat_small [OF ab] by simp
  have IH: "seedPartitions L (drop (Suc k) es) (of_nat (activeBefore Deps (Suc k))) PC'
           = Some (seedPartitions_spec L Deps (drop (Suc k) Is) (Suc k) PC')" for PC'
    using Suc.hyps(1) [of "Suc k" PC'] Suc.hyps(2) k by simp
  have a1: "addToCyclicPartition L I PC =
      (if PC = [] \<or> \<not> DepCycle (last PC)
       then PC @ [\<lparr>Set = [I], DepCycle = True, OrigLoop = L, ClonedLoop = None,
                   ClonedLoopBlocks = [], VMap = Map.empty\<rparr>]
       else butlast PC @ [(last PC)\<lparr>Set := set_insert I (Set (last PC))\<rparr>])" for I
    by (simp add: addToCyclicPartition_def mkInstPartition_def hasDepCycle_def add_def
        set_insert_def)
  have a2: "addToNewNonCyclicPartition L I PC =
       PC @ [\<lparr>Set = [I], DepCycle = False, OrigLoop = L, ClonedLoop = None,
                     ClonedLoopBlocks = [], VMap = Map.empty\<rparr>]" for I
    by (simp add: addToNewNonCyclicPartition_def mkInstPartition_def set_insert_def)
  show ?case
    unfolding de di
    using cond by (simp add: Let_def ik step nonneg IH a1 a2 del: word_greater_zero_iff)
qed

text \<open>
  Claim C6.  Let the dependences be as the analysis delivers them (every
  possibly-backward one has its source strictly before its destination, both
  indexing a memory access).  Then the constructor of
  \<open>MemoryInstructionDependences\<close> succeeds, and for every access \<open>i\<close> the sum of
  \<open>NumUnsafeDependencesStartOrEnd\<close> over the accesses \<open>0..i\<close>, computed in the
  field's 32-bit arithmetic, is the number of possibly-backward dependences \<open>(s, d)\<close>
  with \<open>s \<le> i < d\<close>; read as the signed \<open>int\<close> of the running counter it is that
  number, hence never negative (for fewer than \<open>2^31\<close> dependences).
\<close>

theorem prefix_sum_is_active_count:
  assumes "wfDeps (length Is) Deps" and "length Deps < 2 ^ 31" and "i < length Is"
  shows "\<exists>es. MemoryInstructionDependences Is Deps = Some es \<and>
           sum_list (map NumUnsafeDependencesStartOrEnd (take (Suc i) es))
             = of_nat (activeAfter Deps i) \<and>
           sint (sum_list (map NumUnsafeDependencesStartOrEnd (take (Suc i) es)))
             = int (activeAfter Deps i) \<and>
           0 \<le> sint (sum_list (map NumUnsafeDependencesStartOrEnd (take (Suc i) es)))"
proof -
  from MID_char [OF assms(1)] obtain es where es:
    "MemoryInstructionDependences Is Deps = Some es" "length es = length Is"
    "\<forall>i < length Is. NumUnsafeDependencesStartOrEnd (es ! i) =
          of_nat (numStarts Deps i) - of_nat (numEnds Deps i)"
    by blast
  have "Suc i \<le> length es" using assms(3) es(2) by simp
  with es have s: "sum_list (map NumUnsafeDependencesStartOrEnd (take (Suc i) es))
      = of_nat (activeAfter Deps i)"
    using prefix_sum_active [of es Deps "Suc i", OF _ _ assms(1)]
    by (simp add: activeAfter_eq)
  have "activeAfter Deps i < 2 ^ 31"
    using activeBefore_le [of Deps "Suc i"] assms(2) by (simp add: activeAfter_eq)
  then have "sint (of_nat (activeAfter Deps i) :: 32 word) = int (activeAfter Deps i)"
    by (rule sint_of_nat_small)
  with s es(1) show ?thesis by simp
qed

theorem prefix_sum_is_active_count_witness:
  "\<exists>es. MemoryInstructionDependences [10, 11, 12, 13]
            [\<lparr>Source = 0, Destination = 2, isPossiblyBackward = True\<rparr>] = Some es \<and>
      sum_list (map NumUnsafeDependencesStartOrEnd (take (Suc 1) es)) = 1 \<and>
      sint (sum_list (map NumUnsafeDependencesStartOrEnd (take (Suc 1) es))) = 1"
proof -
  let ?Is = "[10, 11, 12, 13] :: nat list"
  let ?Deps = "[\<lparr>Source = 0, Destination = 2, isPossiblyBackward = True\<rparr>]"
  have h1: "wfDeps (length ?Is) ?Deps" by (simp add: wfDeps_def)
  have h2: "length ?Deps < 2 ^ 31" by simp
  have h3: "1 < length ?Is" by simp
  have a: "activeAfter ?Deps 1 = 1" by (simp add: activeAfter_def)
  show ?thesis
    using prefix_sum_is_active_count [OF h1 h2 h3] unfolding a by auto
qed

text \<open>
  Claim C3.  For dependences as the analysis delivers them, the seeding loop of
  \<open>processLoop\<close> runs to its end without tripping its assertion, and it builds the
  partitions the specification describes: access number \<open>i\<close> is added to the current
  cyclic partition (a new cyclic partition is opened when there is no last partition
  or the last one is not cyclic) exactly when the number of possibly-backward
  dependences active before \<open>i\<close> is nonzero or one starts at \<open>i\<close>; any other access
  opens a new acyclic partition holding that one instruction.
\<close>

theorem seeding_follows_active_dependences:
  assumes "wfDeps (length Is) Deps" and "length Deps < 2 ^ 31"
  shows "\<exists>es. MemoryInstructionDependences Is Deps = Some es \<and>
           seedPartitions L es 0 [] = Some (seedPartitions_spec L Deps Is 0 [])"
proof -
  from MID_char [OF assms(1)] obtain es where es:
    "MemoryInstructionDependences Is Deps = Some es" "length es = length Is"
    "map Inst es = Is"
    "\<forall>i < length Is. NumUnsafeDependencesStartOrEnd (es ! i) =
          of_nat (numStarts Deps i) - of_nat (numEnds Deps i)"
    by blast
  have "activeBefore Deps 0 = 0"
    by (simp add: activeBefore_def)
  with seed_refines [OF assms es(2,3,4), of 0 L "[]"] es(1) show ?thesis
    by simp
qed

theorem seeding_follows_active_dependences_witness:
  "\<exists>es. MemoryInstructionDependences [10, 11, 12, 13]
            [\<lparr>Source = 0, Destination = 2, isPossiblyBackward = True\<rparr>] = Some es \<and>
      seedPartitions 7 es 0 [] =
        Some [\<lparr>Set = [10, 11, 12], DepCycle = True, OrigLoop = 7, ClonedLoop = None,
                ClonedLoopBlocks = [], VMap = Map.empty\<rparr>,
              \<lparr>Set = [13], DepCycle = False, OrigLoop = 7, ClonedLoop = None,
                ClonedLoopBlocks = [], VMap = Map.empty\<rparr>]"
proof -
  let ?Is = "[10, 11, 12, 13] :: nat list"
  let ?Deps = "[\<lparr>Source = 0, Destination = 2, isPossiblyBackward = True\<rparr>]"
  have h1: "wfDeps (length ?Is) ?Deps" by (simp add: wfDeps_def)
  have h2: "length ?Deps < 2 ^ 31" by simp
  have a: "seedPartitions_spec 7 ?Deps ?Is 0 [] =
        [\<lparr>Set = [10, 11, 12], DepCycle = True, OrigLoop = 7, ClonedLoop = None,
                ClonedLoopBlocks = [], VMap = Map.empty\<rparr>,
              \<lparr>Set = [13], DepCycle = False, OrigLoop = 7, ClonedLoop = None,
                ClonedLoopBlocks = [], VMap = Map.empty\<rparr>]"
    by (simp add: activeBefore_def startsUnsafe_def set_insert_def)
  show ?thesis
    using seeding_follows_active_dependences [OF h1 h2, of 7] unfolding a by simp
qed

subsection \<open>The adjacent merges\<close>


lemma set_set_insert [simp]: "set (set_insert x xs) = insert x (set xs)"
  by (auto simp: set_insert_def)

lemma distinct_set_insert [simp]: "distinct (set_insert x xs) = distinct xs"
  by (auto simp: set_insert_def)

lemma set_set_insert_range [simp]: "set (set_insert_range ys xs) = set xs \<union> set ys"
  unfolding set_insert_range_def
  by (induction ys arbitrary: xs) auto

lemma distinct_set_insert_range [simp]: "distinct (set_insert_range ys xs) = distinct xs"
  unfolding set_insert_range_def
  by (induction ys arbitrary: xs) auto

lemma allInsts_simps [simp]:
  "allInsts [] = {}"
  "allInsts (P # PC) = set (Set P) \<union> allInsts PC"
  "allInsts (PC @ PC') = allInsts PC \<union> allInsts PC'"
  by (auto simp: allInsts_def)

lemma cyclicInsts_simps [simp]:
  "cyclicInsts [] = {}"
  "cyclicInsts (P # PC) = cyc P \<union> cyclicInsts PC"
  "cyclicInsts (PC @ PC') = cyclicInsts PC \<union> cyclicInsts PC'"
  by (auto simp: cyclicInsts_def cyc_def)

lemma moveTo_Set [simp]:
  "Set (snd (moveTo P Q)) = set_insert_range (Set P) (Set Q)"
  "Set (fst (moveTo P Q)) = []"
  "DepCycle (snd (moveTo P Q)) = (DepCycle Q \<or> DepCycle P)"
  "DepCycle (fst (moveTo P Q)) = DepCycle P"
  by (simp_all add: moveTo_def)

lemma cyc_moveTo: "cyc P \<union> cyc Q \<subseteq> cyc (snd (moveTo P Q))"
  by (auto simp: cyc_def)

lemma mergeRun_allInsts:
  "set (Set (fst (mergeRun Pr First ps))) \<union> allInsts (snd (mergeRun Pr First ps))
     = set (Set First) \<union> allInsts ps"
  by (induction ps arbitrary: First) auto

lemma mergeRun_cyclic:
  "cyc First \<union> cyclicInsts ps
     \<subseteq> cyc (fst (mergeRun Pr First ps)) \<union> cyclicInsts (snd (mergeRun Pr First ps))"
proof (induction ps arbitrary: First)
  case Nil
  then show ?case by simp
next
  case (Cons p ps)
  show ?case
  proof (cases "Pr p")
    case True
    have "cyc First \<union> cyclicInsts (p # ps) \<subseteq> cyc (snd (moveTo p First)) \<union> cyclicInsts ps"
      using cyc_moveTo [of p First] by auto
    also have "\<dots> \<subseteq> cyc (fst (mergeRun Pr (snd (moveTo p First)) ps))
                     \<union> cyclicInsts (snd (mergeRun Pr (snd (moveTo p First)) ps))"
      by (rule Cons.IH)
    finally show ?thesis using True by simp
  next
    case False
    then show ?thesis by simp
  qed
qed

lemma mergeAdjacentPartitionsIf_allInsts:
  "allInsts (mergeAdjacentPartitionsIf Pr PC) = allInsts PC"
proof (induction Pr PC rule: mergeAdjacentPartitionsIf.induct)
  case (1 Pr)
  then show ?case by simp
next
  case (2 Pr p ps)
  show ?case
  proof (cases "Pr p")
    case True
    with 2 mergeRun_allInsts [of Pr p ps] show ?thesis by simp
  next
    case False
    with 2 show ?thesis by simp
  qed
qed

lemma mergeAdjacentPartitionsIf_cyclic:
  "cyclicInsts PC \<subseteq> cyclicInsts (mergeAdjacentPartitionsIf Pr PC)"
proof (induction Pr PC rule: mergeAdjacentPartitionsIf.induct)
  case (1 Pr)
  then show ?case by simp
next
  case (2 Pr p ps)
  show ?case
  proof (cases "Pr p")
    case True
    with 2 mergeRun_cyclic [of p ps Pr] show ?thesis by auto
  next
    case False
    with 2 show ?thesis by auto
  qed
qed

lemma mergeAdjacentPartitionsIf_length:
  "length (mergeAdjacentPartitionsIf Pr PC) \<le> length PC"
proof (induction Pr PC rule: mergeAdjacentPartitionsIf.induct)
  case (1 Pr)
  then show ?case by simp
next
  case (2 Pr p ps)
  then show ?case
    using mergeRun_length [of Pr p ps] by (cases "Pr p") auto
qed


subsection \<open>Equivalence classes\<close>


lemma wf_ec_iff:
  "wf_ec n EC \<longleftrightarrow>
     distinct EC \<and> [] \<notin> set EC \<and> (\<forall>c \<in> set EC. distinct c \<and> (\<forall>x \<in> set c. x < n)) \<and>
     (\<forall>c \<in> set EC. \<forall>c' \<in> set EC. c \<noteq> c' \<longrightarrow> set c \<inter> set c' = {})"
proof -
  have r: "[] \<notin> set EC \<Longrightarrow> removeAll [] EC = EC" by simp
  show ?thesis
    unfolding wf_ec_def distinct_concat_iff
    using r by (intro iffI; elim conjE; intro conjI; (force | blast)?)
qed

lemma wf_ec_same:
  "wf_ec n EC \<Longrightarrow> c \<in> set EC \<Longrightarrow> c' \<in> set EC \<Longrightarrow> x \<in> set c \<Longrightarrow> x \<in> set c' \<Longrightarrow> c = c'"
  unfolding wf_ec_iff by blast

lemma wf_ec_Nil [simp]: "wf_ec n []"
  by (simp add: wf_ec_def)

lemma sameClass_trans:
  "wf_ec n EC \<Longrightarrow> sameClass EC a b \<Longrightarrow> sameClass EC b c \<Longrightarrow> sameClass EC a c"
  unfolding sameClass_def by (metis wf_ec_same)

lemma sameClass_sym: "sameClass EC a b \<Longrightarrow> sameClass EC b a"
  unfolding sameClass_def by blast

lemma ec_insert_wf: "wf_ec n EC \<Longrightarrow> V < n \<Longrightarrow> wf_ec n (ec_insert V EC)"
  unfolding wf_ec_def ec_insert_def by auto

lemma ec_insert_mem: "\<exists>c \<in> set (ec_insert V EC). V \<in> set c"
  unfolding ec_insert_def by auto

lemma ec_insert_mono: "c \<in> set EC \<Longrightarrow> c \<in> set (ec_insert V EC)"
  unfolding ec_insert_def by auto

lemma find_class:
  assumes "wf_ec n EC" "c \<in> set EC" "V \<in> set c"
  shows "find (\<lambda>c. V \<in> set c) EC = Some c"
proof -
  from assms(2,3) obtain c' where c': "find (\<lambda>c. V \<in> set c) EC = Some c'"
    by (cases "find (\<lambda>c. V \<in> set c) EC") (auto simp: find_None_iff)
  then have "c' \<in> set EC" "V \<in> set c'"
    by (auto simp: find_Some_iff)
  with assms have "c' = c" by (metis wf_ec_same)
  with c' show ?thesis by simp
qed

lemma unionSets_cases:
  assumes wf: "wf_ec n EC" and V1: "V1 < n" and V2: "V2 < n"
  obtains (same) c where "wf_ec n (unionSets V1 V2 EC)" "c \<in> set (unionSets V1 V2 EC)"
      "V1 \<in> set c" "V2 \<in> set c" "set EC \<subseteq> set (unionSets V1 V2 EC)"
  | (join) EC1 c1 c2 where "wf_ec n EC1" "set EC \<subseteq> set EC1" "c1 \<in> set EC1" "c2 \<in> set EC1"
      "V1 \<in> set c1" "V2 \<in> set c2" "c1 \<noteq> c2"
      "unionSets V1 V2 EC = map (\<lambda>c. if c = c1 then c1 @ c2 else c) (filter (\<lambda>c. c \<noteq> c2) EC1)"
proof -
  define EC1 where "EC1 = ec_insert V2 (ec_insert V1 EC)"
  have wf1: "wf_ec n EC1"
    unfolding EC1_def by (intro ec_insert_wf wf V1 V2)
  have sub: "set EC \<subseteq> set EC1"
    unfolding EC1_def by (auto intro: ec_insert_mono)
  obtain c1 where c1: "c1 \<in> set EC1" "V1 \<in> set c1"
    unfolding EC1_def using ec_insert_mem [of V1 EC] ec_insert_mono by blast
  obtain c2 where c2: "c2 \<in> set EC1" "V2 \<in> set c2"
    unfolding EC1_def using ec_insert_mem [of V2] by blast
  have f1: "find (\<lambda>c. V1 \<in> set c) EC1 = Some c1"
    by (rule find_class [OF wf1 c1])
  have f2: "find (\<lambda>c. V2 \<in> set c) EC1 = Some c2"
    by (rule find_class [OF wf1 c2])
  show thesis
  proof (cases "c1 = c2")
    case True
    then have "unionSets V1 V2 EC = EC1"
      using f1 f2 by (simp add: unionSets_def EC1_def [symmetric])
    with wf1 sub c1 c2 True show ?thesis
      by (intro same [of c1]) auto
  next
    case False
    then have "unionSets V1 V2 EC = map (\<lambda>c. if c = c1 then c1 @ c2 else c) (filter (\<lambda>c. c \<noteq> c2) EC1)"
      using f1 f2 by (simp add: unionSets_def EC1_def [symmetric])
    with wf1 sub c1 c2 False show ?thesis
      by (intro join [of EC1 c1 c2]) auto
  qed
qed

lemma join_wf:
  assumes wf: "wf_ec n EC1" and c1: "c1 \<in> set EC1" and c2: "c2 \<in> set EC1" and ne: "c1 \<noteq> c2"
  shows "wf_ec n (map (\<lambda>c. if c = c1 then c1 @ c2 else c) (filter (\<lambda>c. c \<noteq> c2) EC1))"
proof -
  let ?f = "\<lambda>c. if c = c1 then c1 @ c2 else c"
  let ?R = "map ?f (filter (\<lambda>c. c \<noteq> c2) EC1)"
  from wf have d: "distinct EC1" and nn: "[] \<notin> set EC1"
    and el: "\<And>c. c \<in> set EC1 \<Longrightarrow> distinct c \<and> (\<forall>x \<in> set c. x < n)"
    and dj: "\<And>c c'. c \<in> set EC1 \<Longrightarrow> c' \<in> set EC1 \<Longrightarrow> c \<noteq> c' \<Longrightarrow> set c \<inter> set c' = {}"
    unfolding wf_ec_iff by blast+
  have c1ne: "c1 \<noteq> []" and c2ne: "c2 \<noteq> []" using nn c1 c2 by auto
  have d12: "set c1 \<inter> set c2 = {}" using dj [OF c1 c2 ne] .
  have app_ne: "c1 @ c2 \<noteq> c" if "c \<in> set EC1" for c
  proof
    assume e: "c1 @ c2 = c"
    from c1ne obtain x where x: "x \<in> set c1" by (cases c1) auto
    from c2ne obtain y where y: "y \<in> set c2" by (cases c2) auto
    from e x y have "x \<in> set c" "y \<in> set c" by auto
    with x y dj [OF that c1] dj [OF that c2] have "c = c1" "c = c2" by blast+
    with ne show False by simp
  qed
  have inj: "inj_on ?f (set (filter (\<lambda>c. c \<noteq> c2) EC1))"
    using app_ne by (auto simp: inj_on_def)
  have 1: "distinct ?R"
    using d inj by (simp add: distinct_map)
  have 2: "[] \<notin> set ?R" using nn c1ne by auto
  have 3: "distinct c \<and> (\<forall>x \<in> set c. x < n)" if "c \<in> set ?R" for c
  proof -
    from that obtain a where a: "a \<in> set EC1" "c = ?f a" by auto
    show ?thesis
    proof (cases "a = c1")
      case True
      then have "c = c1 @ c2" using a by simp
      then show ?thesis using el [OF c1] el [OF c2] d12 by auto
    next
      case False
      then have "c = a" using a by simp
      then show ?thesis using el [OF a(1)] by simp
    qed
  qed
  have 4: "set c \<inter> set c' = {}" if "c \<in> set ?R" "c' \<in> set ?R" "c \<noteq> c'" for c c'
  proof -
    from that(1) obtain a where a: "a \<in> set EC1" "a \<noteq> c2" "c = ?f a" by auto
    from that(2) obtain b where b: "b \<in> set EC1" "b \<noteq> c2" "c' = ?f b" by auto
    from that(3) a b have ab: "a \<noteq> b" by auto
    have base: "set a \<inter> set b = {}" "set a \<inter> set c2 = {}" "set c2 \<inter> set b = {}"
      using dj [OF a(1) b(1) ab] dj [OF a(1) c2 a(2)] dj [OF c2 b(1)] b(2) by auto
    consider "a = c1" "b \<noteq> c1" | "b = c1" "a \<noteq> c1" | "a \<noteq> c1" "b \<noteq> c1"
      using ab by blast
    then show ?thesis
    proof cases
      case 1
      then have "c = a @ c2" "c' = b" using a b by simp_all
      then show ?thesis using base by auto
    next
      case 2
      then have "c = a" "c' = b @ c2" using a b by simp_all
      then show ?thesis using base by auto
    next
      case 3
      then have "c = a" "c' = b" using a b by simp_all
      then show ?thesis using base by simp
    qed
  qed
  show ?thesis
    unfolding wf_ec_iff using 1 2 3 4 by blast
qed

lemma unionSets_props:
  assumes wf: "wf_ec n EC" and V1: "V1 < n" and V2: "V2 < n"
  shows "wf_ec n (unionSets V1 V2 EC)"
    and "sameClass (unionSets V1 V2 EC) V1 V2"
    and "sameClass EC a b \<Longrightarrow> sameClass (unionSets V1 V2 EC) a b"
    and "unionSets V1 V2 EC \<noteq> []"
proof -
  have "wf_ec n (unionSets V1 V2 EC) \<and> sameClass (unionSets V1 V2 EC) V1 V2 \<and>
        (sameClass EC a b \<longrightarrow> sameClass (unionSets V1 V2 EC) a b) \<and> unionSets V1 V2 EC \<noteq> []"
  proof (cases rule: unionSets_cases [OF wf V1 V2, case_names same join])
    case (same c)
    then show ?thesis
      unfolding sameClass_def by (auto simp: subset_iff)
  next
    case (join EC1 c1 c2)
    let ?f = "\<lambda>c. if c = c1 then c1 @ c2 else c"
    have w: "wf_ec n (unionSets V1 V2 EC)"
      unfolding join(8) by (rule join_wf [OF join(1,3,4,7)])
    have in12: "c1 @ c2 \<in> set (unionSets V1 V2 EC)"
      unfolding join(8) using join(3,7) by (auto simp: image_iff intro!: bexI [of _ c1])
    have s: "sameClass (unionSets V1 V2 EC) V1 V2"
      unfolding sameClass_def using in12 join(5,6) by (intro bexI [of _ "c1 @ c2"]) auto
    have m: "sameClass (unionSets V1 V2 EC) a b" if "sameClass EC a b"
    proof -
      from that obtain c where c: "c \<in> set EC" "a \<in> set c" "b \<in> set c"
        unfolding sameClass_def by blast
      then have c1': "c \<in> set EC1" using join(2) by auto
      show ?thesis
      proof (cases "c = c1 \<or> c = c2")
        case True
        with c in12 show ?thesis
          unfolding sameClass_def by (intro bexI [of _ "c1 @ c2"]) auto
      next
        case False
        with c1' have "c \<in> set (unionSets V1 V2 EC)"
          unfolding join(8) by (auto simp: image_iff intro!: bexI [of _ c])
        with c show ?thesis unfolding sameClass_def by blast
      qed
    qed
    from w s m in12 show ?thesis by auto
  qed
  then show "wf_ec n (unionSets V1 V2 EC)"
    and "sameClass (unionSets V1 V2 EC) V1 V2"
    and "sameClass EC a b \<Longrightarrow> sameClass (unionSets V1 V2 EC) a b"
    and "unionSets V1 V2 EC \<noteq> []"
    by blast+
qed

lemma unionBack_props:
  assumes "wf_ec n EC" "PartI < n" "K < J" "J \<le> PartI"
  shows "\<exists>EC'. unionBack PartI J K EC = Some EC' \<and> wf_ec n EC' \<and> EC' \<noteq> [] \<and>
           (\<forall>J'. K \<le> J' \<and> J' < J \<longrightarrow> sameClass EC' J' PartI) \<and>
           (\<forall>a b. sameClass EC a b \<longrightarrow> sameClass EC' a b)"
  using assms
proof (induction J arbitrary: EC)
  case 0
  then show ?case by simp
next
  case (Suc J)
  let ?EC1 = "unionSets PartI J EC"
  have J: "J < n" using Suc.prems by simp
  note u = unionSets_props [OF Suc.prems(1,2) J]
  show ?case
  proof (cases "J = K")
    case True
    then show ?thesis
      using u by (auto simp: Let_def less_Suc_eq intro: sameClass_sym)
  next
    case False
    with Suc.prems have "K < J" "J \<le> PartI" by simp_all
    from Suc.IH [OF u(1) Suc.prems(2) this] obtain EC' where EC':
      "unionBack PartI J K ?EC1 = Some EC'" "wf_ec n EC'" "EC' \<noteq> []"
      "\<forall>J'. K \<le> J' \<and> J' < J \<longrightarrow> sameClass EC' J' PartI"
      "\<forall>a b. sameClass ?EC1 a b \<longrightarrow> sameClass EC' a b"
      by blast
    have "sameClass EC' J PartI"
      using EC'(5) u(2) by (auto intro: sameClass_sym)
    with EC' False u(3) show ?thesis
      by (auto simp: Let_def less_Suc_eq)
  qed
qed

lemma scan_step:
  assumes inv: "scanInv F n D L2P EC" and I: "I < n"
    and D: "\<forall>j y. (j, y) \<in> D \<longrightarrow> j < I \<or> (j = I \<and> y \<noteq> x)"
  shows "\<exists>L2P1 EC1. (\<forall>xs. scanInsts F I (x # xs) (L2P, EC) = scanInsts F I xs (L2P1, EC1)) \<and>
           scanInv F n (insert (I, x) D) L2P1 EC1"
proof -
  from inv have wf: "wf_ec n EC"
    and a: "\<And>y K. L2P y = Some K \<Longrightarrow> (K, y) \<in> D"
    and b: "\<And>j y. (j, y) \<in> D \<Longrightarrow> isaLoad F y \<Longrightarrow> \<exists>K. L2P y = Some K \<and> (K = j \<or> sameClass EC K j)"
    unfolding scanInv_def by blast+
  show ?thesis
  proof (cases "isaLoad F x")
    case False
    have "scanInv F n (insert (I, x) D) L2P EC"
      unfolding scanInv_def using wf a b False by auto
    with False show ?thesis by auto
  next
    case True
    show ?thesis
    proof (cases "L2P x")
      case None
      have "scanInv F n (insert (I, x) D) (L2P(x \<mapsto> I)) EC"
        unfolding scanInv_def
      proof (intro conjI allI impI)
        show "wf_ec n EC" by (rule wf)
      next
        fix y K assume "(L2P(x \<mapsto> I)) y = Some K"
        then show "(K, y) \<in> insert (I, x) D"
          using a by (auto split: if_splits)
      next
        fix j y assume jy: "(j, y) \<in> insert (I, x) D \<and> isaLoad F y"
        show "\<exists>K. (L2P(x \<mapsto> I)) y = Some K \<and> (K = j \<or> sameClass EC K j)"
        proof (cases "y = x")
          case yx: True
          show ?thesis
          proof (cases "(j, y) \<in> D")
            case True
            with b jy yx None show ?thesis by fastforce
          next
            case False
            with jy yx show ?thesis by auto
          qed
        next
          case False
          with jy b [of j y] show ?thesis by auto
        qed
      qed
      with True None show ?thesis by auto
    next
      case (Some K)
      from a [OF Some] D have K: "K < I" by blast
      from unionBack_props [OF wf I K le_refl] K obtain EC' where EC':
        "unionBack I I K EC = Some EC'" "wf_ec n EC'" "sameClass EC' K I"
        "\<forall>a b. sameClass EC a b \<longrightarrow> sameClass EC' a b"
        by blast
      have "scanInv F n (insert (I, x) D) L2P EC'"
        unfolding scanInv_def
      proof (intro conjI allI impI)
        show "wf_ec n EC'" by (rule EC'(2))
      next
        fix y K' assume "L2P y = Some K'"
        then show "(K', y) \<in> insert (I, x) D" using a by auto
      next
        fix j y assume jy: "(j, y) \<in> insert (I, x) D \<and> isaLoad F y"
        show "\<exists>K'. L2P y = Some K' \<and> (K' = j \<or> sameClass EC' K' j)"
        proof (cases "(j, y) \<in> D")
          case True
          with b [of j y] jy EC'(4) show ?thesis by blast
        next
          case False
          with jy have "j = I" "y = x" by auto
          with Some EC'(3) show ?thesis by auto
        qed
      qed
      with True Some EC'(1) show ?thesis by auto
    qed
  qed
qed

lemma scanInsts_inv:
  assumes "scanInv F n D L2P EC" and "I < n" and "distinct xs"
    and "\<forall>j y. (j, y) \<in> D \<longrightarrow> j < I \<or> (j = I \<and> y \<notin> set xs)"
  shows "\<exists>L2P' EC'. scanInsts F I xs (L2P, EC) = Some (L2P', EC') \<and>
           scanInv F n (D \<union> {I} \<times> set xs) L2P' EC'"
  using assms
proof (induction xs arbitrary: D L2P EC)
  case Nil
  then show ?case by simp
next
  case (Cons x xs)
  have D: "\<forall>j y. (j, y) \<in> D \<longrightarrow> j < I \<or> (j = I \<and> y \<noteq> x)"
    using Cons.prems(4) by auto
  from scan_step [OF Cons.prems(1,2) D] obtain L2P1 EC1 where
    st: "\<And>xs. scanInsts F I (x # xs) (L2P, EC) = scanInsts F I xs (L2P1, EC1)"
    and inv1: "scanInv F n (insert (I, x) D) L2P1 EC1"
    by blast
  have D1: "\<forall>j y. (j, y) \<in> insert (I, x) D \<longrightarrow> j < I \<or> (j = I \<and> y \<notin> set xs)"
    using Cons.prems(3,4) by auto
  from Cons.IH [OF inv1 Cons.prems(2) _ D1] Cons.prems(3)
  obtain L2P' EC' where "scanInsts F I xs (L2P1, EC1) = Some (L2P', EC')"
    "scanInv F n (insert (I, x) D \<union> {I} \<times> set xs) L2P' EC'"
    by auto
  moreover have "insert (I, x) D \<union> {I} \<times> set xs = D \<union> {I} \<times> set (x # xs)"
    by auto
  ultimately show ?case
    unfolding st by auto
qed

lemma scanned_Suc: "scanned PC (Suc I) = scanned PC I \<union> {I} \<times> set (Set (PC ! I))"
  unfolding scanned_def by (auto simp: less_Suc_eq)

lemma scanPartitions_inv:
  assumes "scanInv F (length PC) (scanned PC I) L2P EC" and "I \<le> length PC"
    and "\<forall>P \<in> set PC. distinct (Set P)"
  shows "\<exists>L2P' EC'. scanPartitions F I (drop I PC) (L2P, EC) = Some (L2P', EC') \<and>
           scanInv F (length PC) (scanned PC (length PC)) L2P' EC'"
  using assms(1,2)
proof (induction "length PC - I" arbitrary: I L2P EC)
  case 0
  then show ?case by simp
next
  case (Suc m)
  then have I: "I < length PC" by simp
  have dr: "drop I PC = PC ! I # drop (Suc I) PC"
    using I by (simp add: Cons_nth_drop_Suc)
  have dist: "distinct (Set (PC ! I))"
    using assms(3) I by simp
  have D: "\<forall>j y. (j, y) \<in> scanned PC I \<longrightarrow> j < I \<or> (j = I \<and> y \<notin> set (Set (PC ! I)))"
    unfolding scanned_def by auto
  from scanInsts_inv [OF Suc.prems(1) I dist D] obtain L2P1 EC1 where
    s1: "scanInsts F I (Set (PC ! I)) (L2P, EC) = Some (L2P1, EC1)"
    and inv1: "scanInv F (length PC) (scanned PC (Suc I)) L2P1 EC1"
    unfolding scanned_Suc by blast
  have m: "m = length PC - Suc I" using Suc.hyps(2) by simp
  have le: "Suc I \<le> length PC" using I by simp
  from Suc.hyps(1) [OF m inv1 le]
  obtain L2P' EC' where "scanPartitions F (Suc I) (drop (Suc I) PC) (L2P1, EC1) = Some (L2P', EC')"
    "scanInv F (length PC) (scanned PC (length PC)) L2P' EC'"
    by auto
  then show ?case
    unfolding dr using s1 by simp
qed

lemma scan_total:
  assumes "\<forall>P \<in> set PC. distinct (Set P)"
  shows "\<exists>L2P EC. scanPartitions F 0 PC (Map.empty, []) = Some (L2P, EC) \<and> wf_ec (length PC) EC \<and>
     (\<forall>x j j'. isaLoad F x \<and> j < length PC \<and> j' < length PC \<and> x \<in> set (Set (PC ! j))
         \<and> x \<in> set (Set (PC ! j')) \<and> j \<noteq> j' \<longrightarrow> sameClass EC j j')"
proof -
  have "scanInv F (length PC) (scanned PC 0) Map.empty []"
    unfolding scanInv_def scanned_def by simp
  from scanPartitions_inv [OF this _ assms] obtain L2P EC where
    s: "scanPartitions F 0 PC (Map.empty, []) = Some (L2P, EC)"
    and inv: "scanInv F (length PC) (scanned PC (length PC)) L2P EC"
    by auto
  from inv have wf: "wf_ec (length PC) EC"
    and b: "\<And>j y. (j, y) \<in> scanned PC (length PC) \<Longrightarrow> isaLoad F y \<Longrightarrow>
               \<exists>K. L2P y = Some K \<and> (K = j \<or> sameClass EC K j)"
    unfolding scanInv_def by blast+
  have "sameClass EC j j'" if "isaLoad F x" "j < length PC" "j' < length PC"
    "x \<in> set (Set (PC ! j))" "x \<in> set (Set (PC ! j'))" "j \<noteq> j'" for x j j'
  proof -
    from that have "(j, x) \<in> scanned PC (length PC)" "(j', x) \<in> scanned PC (length PC)"
      unfolding scanned_def by auto
    from b [OF this(1) that(1)] b [OF this(2) that(1)] obtain K where
      K: "K = j \<or> sameClass EC K j" "K = j' \<or> sameClass EC K j'"
      by fastforce
    show ?thesis
    proof (cases "K = j")
      case True
      with K(2) that(6) show ?thesis by auto
    next
      case False
      with K(1) have kj: "sameClass EC j K" by (auto intro: sameClass_sym)
      show ?thesis
      proof (cases "K = j'")
        case True
        with kj show ?thesis by simp
      next
        case False
        with K(2) have "sameClass EC K j'" by simp
        with kj show ?thesis by (rule sameClass_trans [OF wf])
      qed
    qed
  qed
  with s wf show ?thesis by blast
qed


subsection \<open>Merging duplicated loads\<close>


lemma mergeMembers_props:
  assumes "l < length PC" "\<forall>j \<in> set ms. j < length PC" "l \<notin> set ms" "distinct ms"
  shows "length (mergeMembers l ms PC) = length PC \<and>
     set (Set (mergeMembers l ms PC ! l)) = set (Set (PC ! l)) \<union> (\<Union>j \<in> set ms. set (Set (PC ! j))) \<and>
     DepCycle (mergeMembers l ms PC ! l) = (DepCycle (PC ! l) \<or> (\<exists>j \<in> set ms. DepCycle (PC ! j))) \<and>
     (\<forall>j \<in> set ms. Set (mergeMembers l ms PC ! j) = []) \<and>
     (\<forall>p. p \<noteq> l \<and> p \<notin> set ms \<longrightarrow> mergeMembers l ms PC ! p = PC ! p)"
  using assms
proof (induction ms arbitrary: PC)
  case Nil
  then show ?case by simp
next
  case (Cons j ms)
  define PC1 where "PC1 = PC[j := fst (moveTo (PC ! j) (PC ! l)), l := snd (moveTo (PC ! j) (PC ! l))]"
  have jl: "j \<noteq> l" "j < length PC" "j \<notin> set ms" using Cons.prems by auto
  have len: "length PC1 = length PC" by (simp add: PC1_def)
  have l1: "PC1 ! l = snd (moveTo (PC ! j) (PC ! l))"
    using Cons.prems(1) by (simp add: PC1_def)
  have j1: "PC1 ! j = fst (moveTo (PC ! j) (PC ! l))"
    using jl by (simp add: PC1_def)
  have o1: "PC1 ! p = PC ! p" if "p \<noteq> l" "p \<noteq> j" for p
    using that by (simp add: PC1_def)
  have pre: "l < length PC1" "\<forall>j \<in> set ms. j < length PC1" "l \<notin> set ms" "distinct ms"
    using Cons.prems len by auto
  note IH = Cons.IH [OF pre]
  have ms1: "PC1 ! j' = PC ! j'" if "j' \<in> set ms" for j'
    using that jl Cons.prems(3) by (intro o1) auto
  have st: "mergeMembers l (j # ms) PC = mergeMembers l ms PC1"
    by (simp add: PC1_def)
  show ?case
    unfolding st
  proof (intro conjI)
    show "length (mergeMembers l ms PC1) = length PC" using IH len by simp
    show "set (Set (mergeMembers l ms PC1 ! l)) =
            set (Set (PC ! l)) \<union> (\<Union>j \<in> set (j # ms). set (Set (PC ! j)))"
      using IH l1 ms1 by auto
    show "DepCycle (mergeMembers l ms PC1 ! l) =
            (DepCycle (PC ! l) \<or> (\<exists>j \<in> set (j # ms). DepCycle (PC ! j)))"
      using IH l1 ms1 by auto
    show "\<forall>j \<in> set (j # ms). Set (mergeMembers l ms PC1 ! j) = []"
      using IH j1 jl by auto
    show "\<forall>p. p \<noteq> l \<and> p \<notin> set (j # ms) \<longrightarrow> mergeMembers l ms PC1 ! p = PC ! p"
      using IH o1 by auto
  qed
qed

lemma wf_ec_Cons:
  "wf_ec n (c # cs) \<longleftrightarrow>
     wf_ec n cs \<and> c \<noteq> [] \<and> distinct c \<and> set c \<inter> set (concat cs) = {} \<and> (\<forall>x \<in> set c. x < n)"
  unfolding wf_ec_def by auto

lemma mergeClasses_props:
  assumes "wf_ec (length PC) EC"
  shows "length (mergeClasses EC PC) = length PC \<and>
     (\<forall>c \<in> set EC.
        set (Set (mergeClasses EC PC ! hd c)) = (\<Union>j \<in> set c. set (Set (PC ! j))) \<and>
        DepCycle (mergeClasses EC PC ! hd c) = (\<exists>j \<in> set c. DepCycle (PC ! j)) \<and>
        (\<forall>j \<in> set (tl c). Set (mergeClasses EC PC ! j) = [])) \<and>
     (\<forall>p. p \<notin> set (concat EC) \<longrightarrow> mergeClasses EC PC ! p = PC ! p)"
  using assms
proof (induction EC arbitrary: PC)
  case Nil
  then show ?case by simp
next
  case (Cons c cs)
  from Cons.prems have wf: "wf_ec (length PC) cs" and cne: "c \<noteq> []" and dc: "distinct c"
    and dj: "set c \<inter> set (concat cs) = {}" and lt: "\<forall>x \<in> set c. x < length PC"
    unfolding wf_ec_Cons by blast+
  from cne obtain l ms where c: "c = l # ms" by (cases c) auto
  define PC1 where "PC1 = mergeMembers l ms PC"
  have pre: "l < length PC" "\<forall>j \<in> set ms. j < length PC" "l \<notin> set ms" "distinct ms"
    using lt dc c by auto
  note M = mergeMembers_props [OF pre, folded PC1_def]
  have len: "length PC1 = length PC" using M by simp
  have st: "mergeClasses (c # cs) PC = mergeClasses cs PC1"
    by (simp add: c PC1_def)
  from wf len have "wf_ec (length PC1) cs" by simp
  note IH = Cons.IH [OF this]
  have out: "mergeClasses cs PC1 ! p = PC1 ! p" if "p \<in> set c" for p
    using IH dj that by blast
  have same: "PC1 ! j = PC ! j" if "j \<in> set (concat cs)" for j
    using M dj that c by (metis disjoint_iff list.set_intros(1) list.set_intros(2) set_ConsD)
  show ?case
    unfolding st
  proof (intro conjI ballI allI impI)
    show "length (mergeClasses cs PC1) = length PC" using IH len by simp
  next
    fix c' assume c': "c' \<in> set (c # cs)"
    show "set (Set (mergeClasses cs PC1 ! hd c')) = (\<Union>j \<in> set c'. set (Set (PC ! j)))"
    proof (cases "c' = c")
      case True
      then show ?thesis using out [of l] M c by auto
    next
      case False
      with c' have "c' \<in> set cs" by simp
      moreover from this have "\<And>j. j \<in> set c' \<Longrightarrow> PC1 ! j = PC ! j"
        by (intro same) auto
      ultimately show ?thesis using IH by auto
    qed
    show "DepCycle (mergeClasses cs PC1 ! hd c') = (\<exists>j \<in> set c'. DepCycle (PC ! j))"
    proof (cases "c' = c")
      case True
      then show ?thesis using out [of l] M c by auto
    next
      case False
      with c' have "c' \<in> set cs" by simp
      moreover from this have "\<And>j. j \<in> set c' \<Longrightarrow> PC1 ! j = PC ! j"
        by (intro same) auto
      ultimately show ?thesis using IH by auto
    qed
    fix j assume j: "j \<in> set (tl c')"
    show "Set (mergeClasses cs PC1 ! j) = []"
    proof (cases "c' = c")
      case True
      with j c have "j \<in> set ms" by simp
      then show ?thesis using out [of j] M c by auto
    next
      case False
      with c' have "c' \<in> set cs" by simp
      then show ?thesis using IH j by blast
    qed
  next
    fix p assume p: "p \<notin> set (concat (c # cs))"
    then have "mergeClasses cs PC1 ! p = PC1 ! p" using IH by auto
    also have "PC1 ! p = PC ! p" using M p c by auto
    finally show "mergeClasses cs PC1 ! p = PC ! p" .
  qed
qed


lemma wf_ec_hd: "wf_ec n EC \<Longrightarrow> c \<in> set EC \<Longrightarrow> hd c \<in> set c \<and> hd c < n"
  unfolding wf_ec_def by (cases c) auto

lemma in_class_cases:
  assumes "wf_ec n EC" "c \<in> set EC" "p \<in> set c"
  shows "p = hd c \<or> p \<in> set (tl c)"
  using assms by (cases c) auto

lemma dup_unique:
  assumes wf: "wf_ec (length PC) EC"
    and pair: "\<And>j j'. j < length PC \<Longrightarrow> j' < length PC \<Longrightarrow> x \<in> set (Set (PC ! j)) \<Longrightarrow>
                 x \<in> set (Set (PC ! j')) \<Longrightarrow> j \<noteq> j' \<Longrightarrow> sameClass EC j j'"
    and j0: "j0 < length PC" "x \<in> set (Set (PC ! j0))"
  shows "length (filter (\<lambda>P. x \<in> set (Set P)) (mergeClasses EC PC)) = 1"
proof -
  define PC' where "PC' = mergeClasses EC PC"
  note M = mergeClasses_props [OF wf, folded PC'_def]
  have len: "length PC' = length PC" using M by simp
  have lead: "set (Set (PC' ! hd c)) = (\<Union>j \<in> set c. set (Set (PC ! j)))" if "c \<in> set EC" for c
    using M that by blast
  have memb: "Set (PC' ! j) = []" if "c \<in> set EC" "j \<in> set (tl c)" for c j
    using M that by blast
  have out: "PC' ! p = PC ! p" if "p \<notin> set (concat EC)" for p
    using M that by blast
  have lt: "j < length PC" if "c \<in> set EC" "j \<in> set c" for c j
    using wf that unfolding wf_ec_def by blast
  have trace: "(\<exists>c \<in> set EC. p = hd c \<and> (\<exists>j \<in> set c. x \<in> set (Set (PC ! j))))
               \<or> (p \<notin> set (concat EC) \<and> x \<in> set (Set (PC ! p)))"
    if "x \<in> set (Set (PC' ! p))" for p
  proof (cases "p \<in> set (concat EC)")
    case True
    then obtain c where c: "c \<in> set EC" "p \<in> set c" by auto
    from in_class_cases [OF wf c] memb [OF c(1)] that have "p = hd c" by auto
    with lead [OF c(1)] that c(1) show ?thesis by auto
  next
    case False
    with out that show ?thesis by simp
  qed
  let ?S = "{p. p < length PC' \<and> x \<in> set (Set (PC' ! p))}"
  have "\<exists>p0. ?S = {p0}"
  proof (cases "j0 \<in> set (concat EC)")
    case True
    then obtain c where c: "c \<in> set EC" "j0 \<in> set c" by auto
    have inc: "j \<in> set c" if "j < length PC" "x \<in> set (Set (PC ! j))" for j
    proof (cases "j = j0")
      case True
      with c show ?thesis by simp
    next
      case False
      from pair [OF that(1) j0(1) that(2) j0(2) False] obtain c' where
        "c' \<in> set EC" "j \<in> set c'" "j0 \<in> set c'"
        unfolding sameClass_def by blast
      with wf_ec_same [OF wf this(1) c(1) this(3) c(2)] show ?thesis by simp
    qed
    have 1: "hd c \<in> ?S"
      using wf_ec_hd [OF wf c(1)] lead [OF c(1)] c(2) j0(2) len by auto
    have 2: "p = hd c" if "p \<in> ?S" for p
    proof -
      from that have xp: "x \<in> set (Set (PC' ! p))" and pl: "p < length PC" using len by auto
      from trace [OF xp] show ?thesis
      proof
        assume "\<exists>c' \<in> set EC. p = hd c' \<and> (\<exists>j \<in> set c'. x \<in> set (Set (PC ! j)))"
        then obtain c' j where c': "c' \<in> set EC" "p = hd c'" "j \<in> set c'" "x \<in> set (Set (PC ! j))"
          by blast
        from inc [OF lt [OF c'(1,3)] c'(4)] have "j \<in> set c" .
        with wf_ec_same [OF wf c'(1) c(1) c'(3)] c'(2) show ?thesis by simp
      next
        assume "p \<notin> set (concat EC) \<and> x \<in> set (Set (PC ! p))"
        with inc [OF pl] c(1) show ?thesis by auto
      qed
    qed
    from 1 2 have "?S = {hd c}" by blast
    then show ?thesis by blast
  next
    case False
    have only: "j = j0" if "j < length PC" "x \<in> set (Set (PC ! j))" for j
    proof (rule ccontr)
      assume "j \<noteq> j0"
      from pair [OF that(1) j0(1) that(2) j0(2) this] False show False
        unfolding sameClass_def by auto
    qed
    have 1: "j0 \<in> ?S" using out [OF False] j0 len by simp
    have 2: "p = j0" if "p \<in> ?S" for p
    proof -
      from that have xp: "x \<in> set (Set (PC' ! p))" and pl: "p < length PC" using len by auto
      from trace [OF xp] show ?thesis
      proof
        assume "\<exists>c' \<in> set EC. p = hd c' \<and> (\<exists>j \<in> set c'. x \<in> set (Set (PC ! j)))"
        then obtain c' j where c': "c' \<in> set EC" "p = hd c'" "j \<in> set c'" "x \<in> set (Set (PC ! j))"
          by blast
        from only [OF lt [OF c'(1,3)] c'(4)] c'(1,3) False show ?thesis by auto
      next
        assume "p \<notin> set (concat EC) \<and> x \<in> set (Set (PC ! p))"
        with only [OF pl] show ?thesis by simp
      qed
    qed
    from 1 2 have "?S = {j0}" by blast
    then show ?thesis by blast
  qed
  then obtain p0 where "?S = {p0}" by blast
  then have "card ?S = 1" by simp
  then show ?thesis
    unfolding PC'_def [symmetric] by (simp add: length_filter_conv_card)
qed

lemma allInsts_nth: "allInsts PC = (\<Union>p \<in> {..<length PC}. set (Set (PC ! p)))"
proof -
  have "set PC = (!) PC ` {..<length PC}"
    by (auto simp: set_conv_nth)
  then show ?thesis
    unfolding allInsts_def by simp
qed

lemma cyclicInsts_nth:
  "cyclicInsts PC = (\<Union>p \<in> {p. p < length PC \<and> DepCycle (PC ! p)}. set (Set (PC ! p)))"
proof -
  have "{P \<in> set PC. DepCycle P} = (!) PC ` {p. p < length PC \<and> DepCycle (PC ! p)}"
    by (auto simp: set_conv_nth)
  then show ?thesis
    unfolding cyclicInsts_def by simp
qed

lemma mergeClasses_allInsts:
  assumes wf: "wf_ec (length PC) EC"
  shows "allInsts (mergeClasses EC PC) = allInsts PC"
    and "cyclicInsts PC \<subseteq> cyclicInsts (mergeClasses EC PC)"
proof -
  define PC' where "PC' = mergeClasses EC PC"
  note M = mergeClasses_props [OF wf, folded PC'_def]
  have len: "length PC' = length PC" using M by simp
  have lead: "set (Set (PC' ! hd c)) = (\<Union>j \<in> set c. set (Set (PC ! j)))"
    "DepCycle (PC' ! hd c) = (\<exists>j \<in> set c. DepCycle (PC ! j))" if "c \<in> set EC" for c
    using M that by blast+
  have memb: "Set (PC' ! j) = []" if "c \<in> set EC" "j \<in> set (tl c)" for c j
    using M that by blast
  have out: "PC' ! p = PC ! p" if "p \<notin> set (concat EC)" for p
    using M that by blast
  have lt: "j < length PC" if "c \<in> set EC" "j \<in> set c" for c j
    using wf that unfolding wf_ec_def by blast
  have fwd: "\<exists>p < length PC'. x \<in> set (Set (PC' ! p)) \<and> (DepCycle (PC ! j) \<longrightarrow> DepCycle (PC' ! p))"
    if "j < length PC" "x \<in> set (Set (PC ! j))" for j x
  proof (cases "j \<in> set (concat EC)")
    case True
    then obtain c where c: "c \<in> set EC" "j \<in> set c" by auto
    from wf_ec_hd [OF wf c(1)] lead [OF c(1)] c(2) that len show ?thesis
      by (intro exI [of _ "hd c"]) auto
  next
    case False
    with out that len show ?thesis by (intro exI [of _ j]) simp
  qed
  have bwd: "\<exists>j < length PC. x \<in> set (Set (PC ! j))"
    if "p < length PC'" "x \<in> set (Set (PC' ! p))" for p x
  proof (cases "p \<in> set (concat EC)")
    case True
    then obtain c where c: "c \<in> set EC" "p \<in> set c" by auto
    from in_class_cases [OF wf c] memb [OF c(1)] that have "p = hd c" by auto
    with lead [OF c(1)] that lt [OF c(1)] show ?thesis by auto
  next
    case False
    with out that len show ?thesis by (intro exI [of _ p]) simp
  qed
  show "allInsts (mergeClasses EC PC) = allInsts PC"
    unfolding PC'_def [symmetric] allInsts_nth using fwd bwd by blast
  show "cyclicInsts PC \<subseteq> cyclicInsts (mergeClasses EC PC)"
    unfolding PC'_def [symmetric] cyclicInsts_nth using fwd by blast
qed

lemma filter_nonempty_allInsts:
  "allInsts (filter (\<lambda>P. \<not> empty_part P) PC) = allInsts PC"
  "cyclicInsts (filter (\<lambda>P. \<not> empty_part P) PC) = cyclicInsts PC"
  unfolding allInsts_def cyclicInsts_def empty_part_def by auto

lemma filter_member_nonempty:
  "filter (\<lambda>P. x \<in> set (Set P)) (filter (\<lambda>P. \<not> empty_part P) PC) = filter (\<lambda>P. x \<in> set (Set P)) PC"
  unfolding filter_filter empty_part_def by (rule filter_cong) auto

lemma mergeToAvoidDuplicatedLoads_props:
  assumes "\<forall>P \<in> set PC. distinct (Set P)"
  shows "\<exists>b PC'. mergeToAvoidDuplicatedLoads F PC = Some (b, PC') \<and>
     (\<forall>L. isaLoad F L \<and> L \<in> allInsts PC \<longrightarrow> length (filter (\<lambda>P. L \<in> set (Set P)) PC') = 1) \<and>
     allInsts PC' = allInsts PC \<and> cyclicInsts PC \<subseteq> cyclicInsts PC' \<and> length PC' \<le> length PC"
proof -
  from scan_total [OF assms, of F] obtain L2P EC where
    s: "scanPartitions F 0 PC (Map.empty, []) = Some (L2P, EC)"
    and wf: "wf_ec (length PC) EC"
    and pair: "\<And>x j j'. isaLoad F x \<Longrightarrow> j < length PC \<Longrightarrow> j' < length PC \<Longrightarrow>
        x \<in> set (Set (PC ! j)) \<Longrightarrow> x \<in> set (Set (PC ! j')) \<Longrightarrow> j \<noteq> j' \<Longrightarrow> sameClass EC j j'"
    by blast
  define PC' where "PC' = (if EC = [] then PC else filter (\<lambda>P. \<not> empty_part P) (mergeClasses EC PC))"
  have r: "mergeToAvoidDuplicatedLoads F PC = Some (EC \<noteq> [], PC')"
    using s by (simp add: mergeToAvoidDuplicatedLoads_def PC'_def)
  have u: "length (filter (\<lambda>P. L \<in> set (Set P)) PC') = 1" if "isaLoad F L" "L \<in> allInsts PC" for L
  proof -
    from that(2) obtain j0 where j0: "j0 < length PC" "L \<in> set (Set (PC ! j0))"
      unfolding allInsts_nth by auto
    have "length (filter (\<lambda>P. L \<in> set (Set P)) (mergeClasses EC PC)) = 1"
      by (rule dup_unique [OF wf pair [OF that(1)] j0])
    then show ?thesis
      unfolding PC'_def by (cases "EC = []") (simp_all add: filter_member_nonempty del: filter_filter)
  qed
  have a: "allInsts PC' = allInsts PC" "cyclicInsts PC \<subseteq> cyclicInsts PC'"
    unfolding PC'_def using mergeClasses_allInsts [OF wf]
    by (auto simp: filter_nonempty_allInsts)
  have l: "length PC' \<le> length PC"
    unfolding PC'_def using mergeClasses_props [OF wf]
    by (auto intro: order_trans [OF length_filter_le])
  from r u a l show ?thesis by blast
qed

subsection \<open>Claims about the merge passes\<close>



text \<open>
  Claim C10.  After \<open>P.moveTo(Q)\<close> the set of \<open>Q\<close> is the union of the two sets, the set
  of \<open>P\<close> is empty and the flag of \<open>Q\<close> is the disjunction of the two flags.  So each
  merge pass (adjacent non-cyclic, non-if-convertible, duplicated loads) keeps the union
  of the instructions held across the sequence, and every instruction held by a cyclic
  partition before the pass is held by a cyclic partition after it: no cyclic flag is
  dropped.
\<close>

theorem merges_keep_instructions_and_cycles:
  "set (Set (snd (moveTo P Q))) = set (Set P) \<union> set (Set Q) \<and>
   Set (fst (moveTo P Q)) = [] \<and>
   DepCycle (snd (moveTo P Q)) = (DepCycle Q \<or> DepCycle P) \<and>
   allInsts (mergeAdjacentNonCyclic PC) = allInsts PC \<and>
   cyclicInsts PC \<subseteq> cyclicInsts (mergeAdjacentNonCyclic PC) \<and>
   allInsts (mergeNonIfConvertible F needsPred PC) = allInsts PC \<and>
   cyclicInsts PC \<subseteq> cyclicInsts (mergeNonIfConvertible F needsPred PC) \<and>
   ((\<forall>P \<in> set PC. distinct (Set P)) \<longrightarrow>
      (\<exists>b PC'. mergeToAvoidDuplicatedLoads F PC = Some (b, PC') \<and>
         allInsts PC' = allInsts PC \<and> cyclicInsts PC \<subseteq> cyclicInsts PC'))"
proof -
  have 1: "set (Set (snd (moveTo P Q))) = set (Set P) \<union> set (Set Q)" by auto
  have 2: "(\<forall>P \<in> set PC. distinct (Set P)) \<longrightarrow>
      (\<exists>b PC'. mergeToAvoidDuplicatedLoads F PC = Some (b, PC') \<and>
         allInsts PC' = allInsts PC \<and> cyclicInsts PC \<subseteq> cyclicInsts PC')"
    using mergeToAvoidDuplicatedLoads_props [of PC F] by blast
  show ?thesis
    unfolding mergeAdjacentNonCyclic_def mergeNonIfConvertible_def
    using 1 2 mergeAdjacentPartitionsIf_allInsts mergeAdjacentPartitionsIf_cyclic
    by simp
qed

theorem merges_keep_instructions_and_cycles_witness:
  "allInsts (mergeAdjacentNonCyclic
     [mkInstPartition 22 50 True, mkInstPartition 29 50 False, mkInstPartition 27 50 False])
     = {22, 29, 27} \<and>
   cyclicInsts (mergeAdjacentNonCyclic
     [mkInstPartition 22 50 True, mkInstPartition 29 50 False, mkInstPartition 27 50 False])
     = {22} \<and>
   (\<exists>b PC'. mergeToAvoidDuplicatedLoads exF
        [mkInstPartition 22 50 True, add 22 (mkInstPartition 29 50 False)] = Some (b, PC') \<and>
      allInsts PC' = {22, 29} \<and> 22 \<in> cyclicInsts PC')"
proof -
  let ?PC = "[mkInstPartition 22 50 True, add 22 (mkInstPartition 29 50 False)]"
  let ?PA = "[mkInstPartition 22 50 True, mkInstPartition 29 50 False, mkInstPartition 27 50 False]"
  have h: "\<forall>P \<in> set ?PC. distinct (Set P)"
    by (simp add: mkInstPartition_def add_def set_insert_def)
  have a: "allInsts ?PC = {22, 29}" "22 \<in> cyclicInsts ?PC"
    by (auto simp: cyc_def mkInstPartition_def add_def set_insert_def)
  have c: "mergeAdjacentNonCyclic ?PA =
      [mkInstPartition 22 50 True,
       \<lparr>Set = [29, 27], DepCycle = False, OrigLoop = 50, ClonedLoop = None,
        ClonedLoopBlocks = [], VMap = Map.empty\<rparr>]"
    by (simp add: mergeAdjacentNonCyclic_def hasDepCycle_def mkInstPartition_def moveTo_def
        set_insert_range_def set_insert_def)
  have d: "allInsts (mergeAdjacentNonCyclic ?PA) = {22, 29, 27}"
    "cyclicInsts (mergeAdjacentNonCyclic ?PA) = {22}"
    unfolding c by (auto simp: cyc_def mkInstPartition_def set_insert_def)
  have "(\<forall>P \<in> set ?PC. distinct (Set P)) \<longrightarrow>
      (\<exists>b PC'. mergeToAvoidDuplicatedLoads exF ?PC = Some (b, PC') \<and>
         allInsts PC' = allInsts ?PC \<and> cyclicInsts ?PC \<subseteq> cyclicInsts PC')"
    using merges_keep_instructions_and_cycles [where PC = ?PC and F = exF] by blast
  with h obtain b PC' where "mergeToAvoidDuplicatedLoads exF ?PC = Some (b, PC')"
    "allInsts PC' = allInsts ?PC" "cyclicInsts ?PC \<subseteq> cyclicInsts PC'"
    by blast
  with a have "\<exists>b PC'. mergeToAvoidDuplicatedLoads exF ?PC = Some (b, PC') \<and>
      allInsts PC' = {22, 29} \<and> 22 \<in> cyclicInsts PC'"
    by blast
  with d show ?thesis by blast
qed

subsection \<open>Declining to distribute\<close>

lemma processLoop_False_unchanged:
  "processLoop Opts LAI L F = Some (False, F') \<Longrightarrow> F' = F"
  unfolding processLoop_def
  by (auto simp: Let_def split: option.splits if_splits Option.bind_splits prod.splits)

lemma ex_successors:
  "successors exF 5 = [2]" "successors exF 2 = [3]" "successors exF 3 = [3, 4]"
  "successors exF 4 = []"
  by (simp_all add: successors_def getTerminator_def exF_def exInsts_def mkInst_def
      isTerminator_def)

lemma ex_getBlocks: "getBlocks exF 50 = [3]"
  by (simp add: getBlocks_def exF_def)

lemma ex_Layout: "Layout exF = [5, 2, 3, 4]"
  by (simp add: exF_def)

lemma ex_getLoopPreheader: "getLoopPreheader exF 50 = Some 2"
  by (simp add: getLoopPreheader_def getLoopPredecessor_def getHeader_def predecessors_def
      contains_def ex_successors ex_getBlocks ex_Layout)

lemma ex_getExitBlock: "getExitBlock exF 50 = Some 4"
  by (simp add: getExitBlock_def getExitBlocks_def contains_def ex_successors ex_getBlocks)

text \<open>
  Claim C2.  Whenever \<open>processLoop\<close> returns false, the function (its blocks and
  instructions, the dominator tree and the loop nest) is the one it was given.  It
  returns false when the loop has no preheader, no single exit block, when the memory
  operations are safe to vectorize, when there is no interesting dependence, and when
  fewer than two partitions are left after seeding, after the merges before populating
  or after merging duplicated loads.
\<close>

theorem declined_loop_is_unchanged:
  "(processLoop Opts LAI L F = Some (False, F') \<longrightarrow> F' = F) \<and>
   (getLoopPreheader F L = None \<longrightarrow> processLoop Opts LAI L F = Some (False, F)) \<and>
   (getExitBlock F L = None \<longrightarrow> processLoop Opts LAI L F = Some (False, F)) \<and>
   (canVectorizeMemory LAI \<longrightarrow> processLoop Opts LAI L F = Some (False, F)) \<and>
   (getInterestingDependences LAI = None \<or> getInterestingDependences LAI = Some []
      \<longrightarrow> processLoop Opts LAI L F = Some (False, F)) \<and>
   (\<forall>Deps MID PC0 PC1 PC2.
      getLoopPreheader F L \<noteq> None \<and> getExitBlock F L \<noteq> None \<and> \<not> canVectorizeMemory LAI \<and>
      getInterestingDependences LAI = Some Deps \<and> Deps \<noteq> [] \<and>
      MemoryInstructionDependences (getMemoryInstructions LAI) Deps = Some MID \<and>
      seedPartitions L MID 0 [] = Some PC0 \<and>
      PC1 = seedDefsUsedOutside L (findDefsUsedOutsideOfLoop F L) PC0 \<and>
      PC2 = mergeBeforePopulating (DistributeNonIfConvertible Opts) F
              (blockNeedsPredication LAI) PC1
      \<longrightarrow>
      (length PC1 < 2 \<longrightarrow> processLoop Opts LAI L F = Some (False, F)) \<and>
      (length PC2 < 2 \<longrightarrow> processLoop Opts LAI L F = Some (False, F)) \<and>
      (\<forall>PC3 PC4. PC_populateUsedSet F PC2 = Some PC3 \<and>
           mergeToAvoidDuplicatedLoads F PC3 = Some (True, PC4) \<and> length PC4 < 2
           \<longrightarrow> processLoop Opts LAI L F = Some (False, F)))"
proof (intro conjI impI allI)
  assume "processLoop Opts LAI L F = Some (False, F')"
  then show "F' = F" by (rule processLoop_False_unchanged)
next
  assume "getLoopPreheader F L = None"
  then show "processLoop Opts LAI L F = Some (False, F)"
    by (simp add: processLoop_def)
next
  assume "getExitBlock F L = None"
  then show "processLoop Opts LAI L F = Some (False, F)"
    by (simp add: processLoop_def split: option.splits)
next
  assume "canVectorizeMemory LAI"
  then show "processLoop Opts LAI L F = Some (False, F)"
    by (simp add: processLoop_def split: option.splits)
next
  assume "getInterestingDependences LAI = None \<or> getInterestingDependences LAI = Some []"
  then show "processLoop Opts LAI L F = Some (False, F)"
    by (auto simp: processLoop_def split: option.splits)
next
  fix Deps MID PC0 PC1 PC2
  assume a: "getLoopPreheader F L \<noteq> None \<and> getExitBlock F L \<noteq> None \<and> \<not> canVectorizeMemory LAI \<and>
      getInterestingDependences LAI = Some Deps \<and> Deps \<noteq> [] \<and>
      MemoryInstructionDependences (getMemoryInstructions LAI) Deps = Some MID \<and>
      seedPartitions L MID 0 [] = Some PC0 \<and>
      PC1 = seedDefsUsedOutside L (findDefsUsedOutsideOfLoop F L) PC0 \<and>
      PC2 = mergeBeforePopulating (DistributeNonIfConvertible Opts) F
              (blockNeedsPredication LAI) PC1"
  {
    assume "length PC1 < 2"
    with a show "processLoop Opts LAI L F = Some (False, F)"
      by (auto simp: processLoop_def Let_def split: option.splits)
  }
  {
    assume "length PC2 < 2"
    with a show "processLoop Opts LAI L F = Some (False, F)"
      by (auto simp: processLoop_def Let_def split: option.splits)
  }
  {
    fix PC3 PC4
    assume "PC_populateUsedSet F PC2 = Some PC3 \<and>
           mergeToAvoidDuplicatedLoads F PC3 = Some (True, PC4) \<and> length PC4 < 2"
    with a show "processLoop Opts LAI L F = Some (False, F)"
      by (auto simp: processLoop_def Let_def split: option.splits)
  }
qed

theorem declined_loop_is_unchanged_witness:
  "processLoop exOpts (exLAI\<lparr>canVectorizeMemory := True\<rparr>) 50 exF = Some (False, exF) \<and>
   snd (the (processLoop exOpts (exLAI\<lparr>canVectorizeMemory := True\<rparr>) 50 exF)) = exF"
proof -
  have h: "processLoop exOpts (exLAI\<lparr>canVectorizeMemory := True\<rparr>) 50 exF = Some (False, exF)"
    by (simp add: processLoop_def ex_getLoopPreheader ex_getExitBlock)
  from declined_loop_is_unchanged [of exOpts "exLAI\<lparr>canVectorizeMemory := True\<rparr>" 50 exF exF] h
  show ?thesis by simp
qed

subsection \<open>The branch on the run-time check\<close>

lemma insertBefore_last:
  assumes "distinct (xs @ [t])"
  shows "insertBefore t [b] (xs @ [t]) = xs @ [b, t]"
proof -
  from assms have n: "t \<notin> set xs" by simp
  have "takeWhile (\<lambda>x. x \<noteq> t) (xs @ [t]) = xs" "dropWhile (\<lambda>x. x \<noteq> t) (xs @ [t]) = [t]"
    using n by (induction xs) auto
  then show ?thesis by (simp add: insertBefore_def)
qed

lemma getTerminator_SomeD:
  assumes "getTerminator F B = Some T"
  obtains xs i where "BBs F B = Some (xs @ [T])" "Insts F T = Some i" "isTerminator i"
proof -
  from assms obtain "is" i where a: "BBs F B = Some is" "is \<noteq> []" "T = last is"
    "Insts F T = Some i" "isTerminator i"
    by (auto simp: getTerminator_def split: option.splits if_splits)
  then have "is = butlast is @ [T]" by simp
  with a that show thesis by metis
qed

lemma insertMemCheckBranch_terminator:
  assumes r: "insertMemCheckBranch M ND L c F = Some F'"
    and fresh: "Insts F (Fresh F) = None"
    and par: "\<forall>I \<in> set (instsOf F M). parentOf F I = Some M"
    and dist: "distinct (instsOf F M)"
  shows "\<exists>T i IfTrue IfFalse.
     getTerminator F' M = Some T \<and> Insts F' T = Some i \<and> opcode i = Br \<and>
     operands i = [VInst c, VBlock IfTrue, VBlock IfFalse] \<and>
     getLoopPreheader F ND = Some IfTrue \<and> getLoopPreheader F L = Some IfFalse"
proof -
  from r obtain OrigTerm IfTrue IfFalse BI F1 F2 ExitBlock where
    t: "getTerminator F M = Some OrigTerm"
    and p1: "getLoopPreheader F ND = Some IfTrue"
    and p2: "getLoopPreheader F L = Some IfFalse"
    and b: "BranchInst_Create IfTrue IfFalse (VInst c) OrigTerm F = Some (BI, F1)"
    and e: "eraseFromParent OrigTerm F1 = Some F2"
    and d: "changeImmediateDominator ExitBlock M F2 = Some F'"
    by (auto simp: insertMemCheckBranch_def split: Option.bind_splits)
  from t obtain xs ot where xs: "BBs F M = Some (xs @ [OrigTerm])" "Insts F OrigTerm = Some ot"
    by (rule getTerminator_SomeD)
  have iM: "instsOf F M = xs @ [OrigTerm]" using xs by (simp add: instsOf_def)
  from par iM xs have pot: "parent ot = M" by (simp add: parentOf_def)
  from fresh xs have ne: "Fresh F \<noteq> OrigTerm" by auto
  let ?br = "\<lparr>opcode = Br, operands = [VInst c, VBlock IfTrue, VBlock IfFalse],
               incoming = [], ty = 0, parent = M, noalias = [], alias_scope = []\<rparr>"
  from b xs pot have BI: "BI = Fresh F"
    and F1: "F1 = F\<lparr>Insts := (Insts F)(Fresh F \<mapsto> ?br),
                    BBs := (BBs F)(M \<mapsto> insertBefore OrigTerm [Fresh F] (xs @ [OrigTerm])),
                    Fresh := Suc (Fresh F)\<rparr>"
    by (auto simp: BranchInst_Create_def)
  have l1: "insertBefore OrigTerm [Fresh F] (xs @ [OrigTerm]) = xs @ [Fresh F, OrigTerm]"
    using dist iM by (intro insertBefore_last) simp
  from dist iM have nx: "OrigTerm \<notin> set xs" by simp
  from e F1 xs pot ne l1 nx have F2: "BBs F2 M = Some (xs @ [Fresh F])"
    "Insts F2 (Fresh F) = Some ?br"
    by (auto simp: eraseFromParent_def instsOf_def)
  from d have F': "BBs F' = BBs F2" "Insts F' = Insts F2"
    by (auto simp: changeImmediateDominator_def split: if_splits)
  have "getTerminator F' M = Some (Fresh F)"
    using F2 F' by (simp add: getTerminator_def isTerminator_def)
  with F2 F' p1 p2 show ?thesis by auto
qed



lemma ex_versionLoopClone:
  "map_option (\<lambda>(M, c, ND, VM, F). (M, c, ND)) (versionLoopClone exLAI 50 [0, 0, 1]
      [VInst 21, VInst 24] exF) = Some (2, 61, 64)"
  by code_simp

lemma ex_versionLoop_eq:
  "versionLoop exLAI 50 [0, 0, 1] [VInst 21, VInst 24] exF =
     map_option (\<lambda>F. (64, fst (snd (snd (snd (the (versionLoopClone exLAI 50 [0, 0, 1]
                 [VInst 21, VInst 24] exF))))), F))
       (insertMemCheckBranch 2 64 50 61 exCloned)"
  using ex_versionLoopClone
  by (auto simp: versionLoop_def exCloned_def split: Option.bind_splits)

lemma ex_insertMemCheckBranch: "insertMemCheckBranch 2 64 50 61 exCloned = Some exVersioned"
proof -
  have "versionLoop exLAI 50 [0, 0, 1] [VInst 21, VInst 24] exF \<noteq> None"
    by code_simp
  then show ?thesis
    unfolding exVersioned_def ex_versionLoop_eq by auto
qed

lemma ex_cloned_wf:
  "Insts exCloned (Fresh exCloned) = None"
  "\<forall>I \<in> set (instsOf exCloned 2). parentOf exCloned I = Some 2"
  "distinct (instsOf exCloned 2)"
  by code_simp+

lemma ex_cloned_preheaders:
  "getLoopPreheader exCloned 64 = Some 65" "getLoopPreheader exCloned 50 = Some 62"
  by code_simp+



subsection \<open>The order of the stages\<close>

lemma processLoop_stages:
  assumes "processLoop Opts LAI L F = Some (True, F')"
  shows "\<exists>PH Deps MID PC0 PC3 Merged PC4 PC5 F1 F2 F3 InstsFwd PtrsFwd PtrToPartition.
     getLoopPreheader F L = Some PH \<and>
     getInterestingDependences LAI = Some Deps \<and>
     MemoryInstructionDependences (getMemoryInstructions LAI) Deps = Some MID \<and>
     seedPartitions L MID 0 [] = Some PC0 \<and>
     PC_populateUsedSet F
       (mergeBeforePopulating (DistributeNonIfConvertible Opts) F (blockNeedsPredication LAI)
          (seedDefsUsedOutside L (findDefsUsedOutsideOfLoop F L) PC0)) = Some PC3 \<and>
     mergeToAvoidDuplicatedLoads F PC3 = Some (Merged, PC4) \<and>
     splitPreheader PH F = Some F1 \<and>
     (if AddMemcheckForStoreToLoadElimination Opts
      then collectForwarding F1 (getMemoryInstructions LAI) Deps ([], [])
      else Some ([], [])) = Some (InstsFwd, PtrsFwd) \<and>
     computePartitionSetForPointers LAI (setupPartitionIdOnInstructions 0 PC4 Map.empty)
       (Pointers LAI) = Some PtrToPartition \<and>
     versionIfNeeded LAI L PtrToPartition PtrsFwd InstsFwd (findDefsUsedOutsideOfLoop F L) PC4 F1
       = Some F2 \<and>
     cloneLoops L PC4 F2 = Some (PC5, F3) \<and>
     PC_removeUnusedInsts PC5 F3 = Some F'"
  using assms unfolding processLoop_def Let_def
  by (simp split: option.splits if_splits Option.bind_splits prod.splits)

text \<open>
  Claim C4, amended.  A run of \<open>processLoop\<close> that distributes the loop goes through
  its stages in this order: the partitions are seeded, merged before populating
  (adjacent non-cyclic, non-if-convertible), populated with the closure of what they
  use, and merged again to avoid duplicated loads; the preheader is split if needed;
  then, if run-time checks are needed, the loop is versioned and the alias annotation
  added; only then are the loops cloned, and last the dead instructions are removed:
  the state returned is the pruning of the cloning of the versioned state.
\<close>

theorem stages_in_code_order:
  assumes "processLoop Opts LAI L F = Some (True, F')"
  shows "\<exists>PH Deps MID PC0 PC3 Merged PC4 PC5 F1 F2 F3 InstsFwd PtrsFwd PtrToPartition.
     getLoopPreheader F L = Some PH \<and>
     getInterestingDependences LAI = Some Deps \<and>
     MemoryInstructionDependences (getMemoryInstructions LAI) Deps = Some MID \<and>
     seedPartitions L MID 0 [] = Some PC0 \<and>
     PC_populateUsedSet F
       (mergeBeforePopulating (DistributeNonIfConvertible Opts) F (blockNeedsPredication LAI)
          (seedDefsUsedOutside L (findDefsUsedOutsideOfLoop F L) PC0)) = Some PC3 \<and>
     mergeToAvoidDuplicatedLoads F PC3 = Some (Merged, PC4) \<and>
     splitPreheader PH F = Some F1 \<and>
     (if AddMemcheckForStoreToLoadElimination Opts
      then collectForwarding F1 (getMemoryInstructions LAI) Deps ([], [])
      else Some ([], [])) = Some (InstsFwd, PtrsFwd) \<and>
     computePartitionSetForPointers LAI (setupPartitionIdOnInstructions 0 PC4 Map.empty)
       (Pointers LAI) = Some PtrToPartition \<and>
     versionIfNeeded LAI L PtrToPartition PtrsFwd InstsFwd (findDefsUsedOutsideOfLoop F L) PC4 F1
       = Some F2 \<and>
     cloneLoops L PC4 F2 = Some (PC5, F3) \<and>
     PC_removeUnusedInsts PC5 F3 = Some F'"
  using assms by (rule processLoop_stages)

lemma ex_processLoop: "map_option fst (processLoop exOpts exLAI 50 exF) = Some True"
  by code_simp

lemma ex_processLoop_eq: "processLoop exOpts exLAI 50 exF = Some (True, exDistributed)"
  using ex_processLoop unfolding exDistributed_def by (auto simp: map_option_case split: option.splits)

theorem stages_in_code_order_witness:
  "\<exists>PC4 PC5 F1 F2 F3 InstsFwd PtrsFwd PtrToPartition.
     splitPreheader 2 exF = Some F1 \<and>
     versionIfNeeded exLAI 50 PtrToPartition PtrsFwd InstsFwd
        (findDefsUsedOutsideOfLoop exF 50) PC4 F1 = Some F2 \<and>
     cloneLoops 50 PC4 F2 = Some (PC5, F3) \<and>
     PC_removeUnusedInsts PC5 F3 = Some exDistributed"
  using stages_in_code_order [OF ex_processLoop_eq] unfolding ex_getLoopPreheader
  by (elim exE conjE) blast

lemma ex_layouts:
  "Layout exDistributed = [5, 2, 65, 67, 83, 85, 62, 3, 4]"
  "Layout exClaimedOrder = [5, 61, 63, 2, 81, 83, 78, 3, 4]"
  by code_simp+

lemma ex_fallback_sizes:
  "length (instsOf exDistributed 67) = 12"
  "length (instsOf exClaimedOrder 83) = 7"
  by code_simp+

text \<open>
  Claim C4 as stated fails on the example.  \<open>processLoop\<close> versions the loop before it
  clones and prunes: in its result the memcheck block 2 stands before all the loops
  and the fall-back loop (block 67) is a copy of the whole loop body, 12 instructions.
  With the stages in the claimed order the memcheck block would stand between the two
  distributed loops and the fall-back loop (block 83) would be a copy of the pruned
  loop, 7 instructions.
\<close>

theorem stages_not_in_claimed_order:
  "Layout exDistributed = [5, 2, 65, 67, 83, 85, 62, 3, 4] \<and>
   length (instsOf exDistributed 67) = 12 \<and>
   Layout exClaimedOrder = [5, 61, 63, 2, 81, 83, 78, 3, 4] \<and>
   length (instsOf exClaimedOrder 83) = 7 \<and>
   exDistributed \<noteq> exClaimedOrder"
proof -
  have "exDistributed \<noteq> exClaimedOrder"
  proof
    assume "exDistributed = exClaimedOrder"
    then have "Layout exDistributed = Layout exClaimedOrder" by simp
    then show False unfolding ex_layouts by simp
  qed
  with ex_layouts ex_fallback_sizes show ?thesis by simp
qed

subsection \<open>The scope counter is touched by the annotator only\<close>

lemma addBlockEntryUp_FreshMD:
  assumes "addBlockEntryUp L NewBB F = Some F'"
  shows "FreshMD F' = FreshMD F"
  by (rule addBlockEntryUp.raw_induct [where P = "\<lambda>L NewBB F F'. FreshMD F' = FreshMD F",
        OF _ assms])
     (fastforce split: option.splits)

lemma addBasicBlockToLoop_FreshMD:
  "addBasicBlockToLoop L NewBB F = Some F' \<Longrightarrow> FreshMD F' = FreshMD F"
  by (auto simp: addBasicBlockToLoop_def split: if_splits dest: addBlockEntryUp_FreshMD)

lemma addChildLoop_FreshMD: "addChildLoop P C F = Some F' \<Longrightarrow> FreshMD F' = FreshMD F"
  by (auto simp: addChildLoop_def split: option.splits if_splits)

lemma addTopLevelLoop_FreshMD: "addTopLevelLoop C F = Some F' \<Longrightarrow> FreshMD F' = FreshMD F"
  by (auto simp: addTopLevelLoop_def split: option.splits if_splits)

lemma newLoop_FreshMD: "FreshMD (snd (newLoop F)) = FreshMD F"
  by (simp add: newLoop_def)

lemma addNewBlock_FreshMD: "addNewBlock B D F = Some F' \<Longrightarrow> FreshMD F' = FreshMD F"
  by (auto simp: addNewBlock_def split: if_splits)

lemma changeImmediateDominator_FreshMD:
  "changeImmediateDominator B D F = Some F' \<Longrightarrow> FreshMD F' = FreshMD F"
  by (auto simp: changeImmediateDominator_def split: if_splits)

lemma cloneInsts_FreshMD:
  "cloneInsts NewBB Is VM F acc = Some (news, VM', F') \<Longrightarrow> FreshMD F' = FreshMD F"
  by (induction Is arbitrary: VM F acc) (auto split: option.splits)

lemma CloneBasicBlock_FreshMD:
  "CloneBasicBlock BB VM s F = Some (NewBB, VM', F') \<Longrightarrow> FreshMD F' = FreshMD F"
  by (auto simp: CloneBasicBlock_def split: option.splits dest!: cloneInsts_FreshMD)

lemma RemapInstruction_FreshMD: "FreshMD (RemapInstruction VM F I) = FreshMD F"
  by (simp add: RemapInstruction_def split: option.splits)

lemma foldl_RemapInstruction_FreshMD: "FreshMD (foldl (RemapInstruction VM) F Is) = FreshMD F"
  by (induction Is arbitrary: F) (simp_all add: RemapInstruction_FreshMD)

lemma remapInstructionsInLoop_FreshMD: "FreshMD (remapInstructionsInLoop Blocks VM F) = FreshMD F"
  unfolding remapInstructionsInLoop_def
  by (induction Blocks arbitrary: F) (simp_all add: foldl_RemapInstruction_FreshMD)

lemma replaceIncoming_FreshMD: "FreshMD (replaceIncoming Old New F I) = FreshMD F"
  by (simp add: replaceIncoming_def split: option.splits)

lemma foldl_replaceIncoming_FreshMD:
  "FreshMD (foldl (replaceIncoming Old New) F Is) = FreshMD F"
  by (induction Is arbitrary: F) (simp_all add: replaceIncoming_FreshMD)

lemma foldl_foldl_replaceIncoming_FreshMD:
  "FreshMD (foldl (\<lambda>G S. foldl (replaceIncoming Old New) G (instsOf G S)) F Ss) = FreshMD F"
  by (induction Ss arbitrary: F) (simp_all add: foldl_replaceIncoming_FreshMD)

lemma SplitBlock_FreshMD: "SplitBlock Old SplitPt F = Some (New, F') \<Longrightarrow> FreshMD F' = FreshMD F"
  by (auto simp: SplitBlock_def Let_def foldl_foldl_replaceIncoming_FreshMD
      split: option.splits if_splits dest!: addBasicBlockToLoop_FreshMD)

lemma BranchInst_Create_FreshMD:
  "BranchInst_Create T E c I F = Some (BI, F') \<Longrightarrow> FreshMD F' = FreshMD F"
  by (auto simp: BranchInst_Create_def split: option.splits)

lemma eraseFromParent_FreshMD: "eraseFromParent I F = Some F' \<Longrightarrow> FreshMD F' = FreshMD F"
  by (auto simp: eraseFromParent_def split: option.splits)

lemma replaceUsesOfWith_FreshMD: "FreshMD (replaceUsesOfWith U A B F) = FreshMD F"
  by (simp add: replaceUsesOfWith_def split: option.splits)

lemma insertChecks_FreshMD: "FreshMD (snd (insertChecks B Loc cs acc F)) = FreshMD F"
  by (induction cs arbitrary: acc F) simp_all

lemma addRuntimeCheck_FreshMD:
  "addRuntimeCheck LAI Loc P Ptrs F = Some (a, b, F') \<Longrightarrow> FreshMD F' = FreshMD F"
  using insertChecks_FreshMD
  by (auto simp: addRuntimeCheck_def split: option.splits prod.splits if_splits)
     (metis snd_conv)+

lemma cloneLoopBlocks_FreshMD:
  "cloneLoopBlocks Bs NewLoop s VM Blocks F = Some (VM', Blocks', F') \<Longrightarrow> FreshMD F' = FreshMD F"
proof (induction Bs arbitrary: VM Blocks F)
  case Nil
  then show ?case by simp
next
  case (Cons BB Bs)
  from Cons.prems show ?case
    by (auto split: Option.bind_splits option.splits val.splits
        dest!: CloneBasicBlock_FreshMD addBasicBlockToLoop_FreshMD addNewBlock_FreshMD Cons.IH)
qed

lemma cloneLoopWithPreheader_FreshMD:
  "cloneLoopWithPreheader Before Dom OrigL VM s Blocks F = Some (NL, VM', Blocks', F')
     \<Longrightarrow> FreshMD F' = FreshMD F"
  unfolding cloneLoopWithPreheader_def
  by (auto simp: newLoop_def split: Option.bind_splits option.splits prod.splits
      dest!: addChildLoop_FreshMD addTopLevelLoop_FreshMD CloneBasicBlock_FreshMD
        addBasicBlockToLoop_FreshMD addNewBlock_FreshMD cloneLoopBlocks_FreshMD)

lemma versionLoopClone_FreshMD:
  "versionLoopClone LAI L P Ptrs F = Some (M, c, ND, VM, F') \<Longrightarrow> FreshMD F' = FreshMD F"
  unfolding versionLoopClone_def
  by (auto simp: Let_def setName_def remapInstructionsInLoop_FreshMD split: Option.bind_splits
      dest!: addRuntimeCheck_FreshMD SplitBlock_FreshMD cloneLoopWithPreheader_FreshMD)

lemma insertMemCheckBranch_FreshMD:
  "insertMemCheckBranch M ND L c F = Some F' \<Longrightarrow> FreshMD F' = FreshMD F"
  unfolding insertMemCheckBranch_def
  by (auto split: Option.bind_splits
      dest!: BranchInst_Create_FreshMD eraseFromParent_FreshMD changeImmediateDominator_FreshMD)

lemma versionLoop_FreshMD:
  "versionLoop LAI L P Ptrs F = Some (ND, VM, F') \<Longrightarrow> FreshMD F' = FreshMD F"
  unfolding versionLoop_def
  by (auto split: Option.bind_splits dest!: versionLoopClone_FreshMD insertMemCheckBranch_FreshMD)

lemma addIncoming_FreshMD: "FreshMD (addIncoming PN V BB F) = FreshMD F"
  by (simp add: addIncoming_def split: option.splits)

lemma addPHINodes_FreshMD:
  "addPHINodes L ND VM Defs F = Some F' \<Longrightarrow> FreshMD F' = FreshMD F"
proof (induction Defs arbitrary: F)
  case Nil
  then show ?case by (auto split: option.splits)
next
  case (Cons D Defs)
  from Cons.prems obtain PN F1 x y where
    s: "addPHINodes L ND VM Defs (addIncoming PN x y F1) = Some F'"
    and f: "FreshMD F1 = FreshMD F"
    by (auto simp: Let_def addIncoming_FreshMD replaceUsesOfWith_FreshMD
        split: Option.bind_splits option.splits list.splits)
  from Cons.IH [OF s] f show ?case
    by (simp add: addIncoming_FreshMD)
qed

lemma Part_annotateNoAlias_props:
  assumes "Part_annotateNoAlias S Fwd P Is F = Some F'" and "ClonedLoop P = None"
  shows "(\<forall>oc I. isa F' oc I = isa F oc I) \<and> FreshMD F' = FreshMD F \<and>
     (\<forall>I. hasScope F S I \<longrightarrow> hasScope F' S I) \<and>
     (\<forall>I \<in> set Is. annotated F Fwd I \<longrightarrow> hasScope F' S I) \<and>
     (\<forall>I. \<not> (I \<in> set Is \<and> annotated F Fwd I) \<longrightarrow> Insts F' I = Insts F I)"
  using assms(1)
proof (induction Is arbitrary: F)
  case Nil
  then show ?case by simp
next
  case (Cons I Is)
  from Cons.prems assms(2) obtain i where i: "Insts F I = Some i"
    by (auto simp: getNewInst_def split: option.splits)
  define F1 where "F1 = (if (opcode i = Load \<and> I \<in> set Fwd) \<or> (opcode i = Store \<and> I \<notin> set Fwd)
                  then F\<lparr>Insts := (Insts F)(I \<mapsto> addScopes S i)\<rparr> else F)"
  from Cons.prems assms(2) i have s: "Part_annotateNoAlias S Fwd P Is F1 = Some F'"
    by (simp add: getNewInst_def F1_def)
  have an: "annotated F Fwd I \<longleftrightarrow> (opcode i = Load \<and> I \<in> set Fwd) \<or> (opcode i = Store \<and> I \<notin> set Fwd)"
    using i by (auto simp: annotated_def isa_def)
  have 1: "isa F1 oc J = isa F oc J" for oc J
    using i by (auto simp: F1_def isa_def addScopes_def)
  have 2: "FreshMD F1 = FreshMD F" by (simp add: F1_def)
  have 3: "hasScope F1 S J" if "hasScope F S J" for J
    using that i by (auto simp: F1_def hasScope_def addScopes_def)
  have 4: "hasScope F1 S I" if "annotated F Fwd I"
    using that an i by (auto simp: F1_def hasScope_def addScopes_def)
  have 5: "Insts F1 J = Insts F J" if "\<not> (J = I \<and> annotated F Fwd I)" for J
    using that an by (auto simp: F1_def)
  have 6: "annotated F1 Fwd J = annotated F Fwd J" for J
    by (simp add: annotated_def 1)
  note IH = Cons.IH [OF s]
  show ?case
  proof (intro conjI allI ballI impI)
    fix oc J show "isa F' oc J = isa F oc J" using IH 1 by simp
  next
    show "FreshMD F' = FreshMD F" using IH 2 by simp
  next
    fix J assume "hasScope F S J" then show "hasScope F' S J" using IH 3 by blast
  next
    fix J assume "J \<in> set (I # Is)" "annotated F Fwd J"
    then show "hasScope F' S J" using IH 4 6 by auto
  next
    fix J assume n: "\<not> (J \<in> set (I # Is) \<and> annotated F Fwd J)"
    then have "Insts F1 J = Insts F J" by (intro 5) auto
    moreover from n 6 have "\<not> (J \<in> set Is \<and> annotated F1 Fwd J)" by auto
    with IH have "Insts F' J = Insts F1 J" by blast
    ultimately show "Insts F' J = Insts F J" by simp
  qed
qed

lemma annotateCyclic_props:
  assumes "annotateCyclic S Fwd PC F = Some F'" and "\<forall>P \<in> set PC. ClonedLoop P = None"
  shows "(\<forall>oc I. isa F' oc I = isa F oc I) \<and> FreshMD F' = FreshMD F \<and>
     (\<forall>I. hasScope F S I \<longrightarrow> hasScope F' S I) \<and>
     (\<forall>P \<in> set PC. hasDepCycle P \<longrightarrow>
        (\<forall>I \<in> set (Set P). annotated F Fwd I \<longrightarrow> hasScope F' S I)) \<and>
     (\<forall>I. \<not> (\<exists>P \<in> set PC. hasDepCycle P \<and> I \<in> set (Set P) \<and> annotated F Fwd I)
          \<longrightarrow> Insts F' I = Insts F I)"
  using assms
proof (induction PC arbitrary: F)
  case Nil
  then show ?case by simp
next
  case (Cons P PC)
  show ?case
  proof (cases "hasDepCycle P")
    case False
    with Cons.prems have "annotateCyclic S Fwd PC F = Some F'" by simp
    from Cons.IH [OF this] Cons.prems(2) False show ?thesis by auto
  next
    case True
    with Cons.prems obtain F1 where f1: "Part_annotateNoAlias S Fwd P (Set P) F = Some F1"
      and s: "annotateCyclic S Fwd PC F1 = Some F'"
      by (auto split: Option.bind_splits)
    from Cons.prems(2) have cl: "ClonedLoop P = None" by simp
    note A = Part_annotateNoAlias_props [OF f1 cl]
    from Cons.prems(2) have "\<forall>P \<in> set PC. ClonedLoop P = None" by simp
    note IH = Cons.IH [OF s this]
    have an: "annotated F1 Fwd J = annotated F Fwd J" for J
      using A by (simp add: annotated_def)
    show ?thesis
    proof (intro conjI allI ballI impI)
      fix oc J show "isa F' oc J = isa F oc J" using IH A by simp
    next
      show "FreshMD F' = FreshMD F" using IH A by simp
    next
      fix J assume "hasScope F S J" then show "hasScope F' S J" using IH A by blast
    next
      fix Q J assume "Q \<in> set (P # PC)" "hasDepCycle Q" "J \<in> set (Set Q)" "annotated F Fwd J"
      then show "hasScope F' S J" using IH A an by auto
    next
      fix J assume n: "\<not> (\<exists>Q \<in> set (P # PC). hasDepCycle Q \<and> J \<in> set (Set Q) \<and> annotated F Fwd J)"
      with True have "\<not> (J \<in> set (Set P) \<and> annotated F Fwd J)" by auto
      with A have "Insts F1 J = Insts F J" by blast
      moreover from n an have "\<not> (\<exists>Q \<in> set PC. hasDepCycle Q \<and> J \<in> set (Set Q) \<and> annotated F1 Fwd J)"
        by auto
      with IH have "Insts F' J = Insts F1 J" by blast
      ultimately show "Insts F' J = Insts F J" by simp
    qed
  qed
qed

lemma PC_annotateNoAlias_props:
  assumes "PC_annotateNoAlias Fwd PC F = Some F'" and "\<forall>P \<in> set PC. ClonedLoop P = None"
  shows "FreshMD F' = FreshMD F + 2 \<and>
     (\<forall>P \<in> set PC. hasDepCycle P \<longrightarrow>
        (\<forall>I \<in> set (Set P). annotated F Fwd I \<longrightarrow> hasScope F' (Suc (FreshMD F)) I)) \<and>
     (\<forall>I. \<not> (\<exists>P \<in> set PC. hasDepCycle P \<and> I \<in> set (Set P) \<and> annotated F Fwd I)
          \<longrightarrow> Insts F' I = Insts F I)"
proof -
  let ?G = "F\<lparr>FreshMD := Suc (Suc (FreshMD F))\<rparr>"
  from assms(1) have "annotateCyclic (Suc (FreshMD F)) Fwd PC ?G = Some F'"
    by (simp add: PC_annotateNoAlias_def)
  note A = annotateCyclic_props [OF this assms(2)]
  have "annotated ?G Fwd I = annotated F Fwd I" for I
    by (simp add: annotated_def isa_def)
  with A show ?thesis by simp
qed

lemma versionIfNeeded_FreshMD:
  assumes "versionIfNeeded LAI L PtrToPartition PtrsFwd InstsFwd Defs PC F = Some F'"
    and "\<forall>P \<in> set PC. ClonedLoop P = None"
  shows "FreshMD F' =
     (if needsAnyChecking LAI PtrToPartition PtrsFwd \<and> InstsFwd \<noteq> [] then FreshMD F + 2
      else FreshMD F)"
  using assms
  by (auto simp: versionIfNeeded_def split: if_splits Option.bind_splits
      dest!: versionLoop_FreshMD addPHINodes_FreshMD PC_annotateNoAlias_props)

lemma uncloned_simps [simp]:
  "uncloned []" "uncloned (P # PC) \<longleftrightarrow> ClonedLoop P = None \<and> uncloned PC"
  "uncloned (PC @ PC') \<longleftrightarrow> uncloned PC \<and> uncloned PC'"
  by (auto simp: uncloned_def)

lemma uncloned_butlast: "uncloned PC \<Longrightarrow> uncloned (butlast PC)"
  by (auto simp: uncloned_def dest: in_set_butlastD)

lemma uncloned_last: "uncloned PC \<Longrightarrow> PC \<noteq> [] \<Longrightarrow> ClonedLoop (last PC) = None"
  by (auto simp: uncloned_def)

lemma addToCyclicPartition_uncloned: "uncloned PC \<Longrightarrow> uncloned (addToCyclicPartition L I PC)"
  by (auto simp: addToCyclicPartition_def mkInstPartition_def add_def uncloned_butlast
      uncloned_last)

lemma addToNewNonCyclicPartition_uncloned:
  "uncloned PC \<Longrightarrow> uncloned (addToNewNonCyclicPartition L I PC)"
  by (simp add: addToNewNonCyclicPartition_def mkInstPartition_def)

lemma seedPartitions_uncloned:
  "seedPartitions L es act PC = Some PC' \<Longrightarrow> uncloned PC \<Longrightarrow> uncloned PC'"
proof (induction es arbitrary: act PC)
  case Nil
  then show ?case by simp
next
  case (Cons e es)
  from Cons.prems(1) obtain PC1 act1 where s: "seedPartitions L es act1 PC1 = Some PC'"
    and p: "PC1 = addToCyclicPartition L (Inst e) PC \<or> PC1 = addToNewNonCyclicPartition L (Inst e) PC"
    by (auto simp: Let_def split: if_splits)
  from p Cons.prems(2) have "uncloned PC1"
    by (auto intro: addToCyclicPartition_uncloned addToNewNonCyclicPartition_uncloned)
  with Cons.IH [OF s] show ?case .
qed

lemma seedDefsUsedOutside_uncloned: "uncloned PC \<Longrightarrow> uncloned (seedDefsUsedOutside L Is PC)"
  by (induction Is arbitrary: PC) (simp_all add: addToNewNonCyclicPartition_uncloned)

lemma moveTo_ClonedLoop [simp]:
  "ClonedLoop (snd (moveTo P Q)) = ClonedLoop Q" "ClonedLoop (fst (moveTo P Q)) = ClonedLoop P"
  by (simp_all add: moveTo_def)

lemma mergeRun_uncloned:
  "ClonedLoop First = None \<Longrightarrow> uncloned ps \<Longrightarrow>
     ClonedLoop (fst (mergeRun Pr First ps)) = None \<and> uncloned (snd (mergeRun Pr First ps))"
  by (induction ps arbitrary: First) auto

lemma mergeAdjacentPartitionsIf_uncloned:
  "uncloned PC \<Longrightarrow> uncloned (mergeAdjacentPartitionsIf Pr PC)"
proof (induction Pr PC rule: mergeAdjacentPartitionsIf.induct)
  case (1 Pr)
  then show ?case by simp
next
  case (2 Pr p ps)
  then show ?case
    using mergeRun_uncloned [of p ps Pr] by (cases "Pr p") auto
qed

lemma mergeBeforePopulating_uncloned:
  "uncloned PC \<Longrightarrow> uncloned (mergeBeforePopulating d F np PC)"
  by (simp add: mergeBeforePopulating_def Let_def mergeAdjacentNonCyclic_def
      mergeNonIfConvertible_def mergeAdjacentPartitionsIf_uncloned)

lemma PC_populateUsedSet_uncloned:
  "PC_populateUsedSet F PC = Some PC' \<Longrightarrow> uncloned PC \<Longrightarrow> uncloned PC'"
  by (induction PC arbitrary: PC')
     (auto simp: populateUsedSet_def split: Option.bind_splits)

lemma mergeMembers_ClonedLoop:
  "length (mergeMembers l ms PC) = length PC \<and>
   (\<forall>p < length PC. ClonedLoop (mergeMembers l ms PC ! p) = ClonedLoop (PC ! p))"
proof (induction ms arbitrary: PC)
  case Nil
  then show ?case by simp
next
  case (Cons j ms)
  let ?PC1 = "PC[j := fst (moveTo (PC ! j) (PC ! l)), l := snd (moveTo (PC ! j) (PC ! l))]"
  have "\<forall>p < length PC. ClonedLoop (?PC1 ! p) = ClonedLoop (PC ! p)"
    by (cases "l < length PC"; cases "j < length PC")
       (auto simp: nth_list_update list_update_beyond)
  with Cons.IH [of ?PC1] show ?case by simp
qed

lemma mergeClasses_ClonedLoop:
  "length (mergeClasses EC PC) = length PC \<and>
   (\<forall>p < length PC. ClonedLoop (mergeClasses EC PC ! p) = ClonedLoop (PC ! p))"
proof (induction EC arbitrary: PC)
  case Nil
  then show ?case by simp
next
  case (Cons c cs)
  show ?case
  proof (cases c)
    case Nil
    with Cons.IH [of PC] show ?thesis by simp
  next
    case (Cons l ms)
    with Cons.IH [of "mergeMembers l ms PC"] mergeMembers_ClonedLoop [of l ms PC]
    show ?thesis by simp
  qed
qed

lemma mergeClasses_uncloned: "uncloned PC \<Longrightarrow> uncloned (mergeClasses EC PC)"
  using mergeClasses_ClonedLoop [of EC PC]
  unfolding uncloned_def by (metis in_set_conv_nth)

lemma mergeToAvoidDuplicatedLoads_uncloned:
  "mergeToAvoidDuplicatedLoads F PC = Some (b, PC') \<Longrightarrow> uncloned PC \<Longrightarrow> uncloned PC'"
  using mergeClasses_uncloned
  by (auto simp: mergeToAvoidDuplicatedLoads_def uncloned_def
      split: Option.bind_splits if_splits)

lemma cloneReversed_FreshMD:
  "cloneReversed n Pred ExitBlock Index TopPH PC F = Some (TopPH', PC', F')
     \<Longrightarrow> FreshMD F' = FreshMD F"
proof (induction n arbitrary: Index TopPH PC F)
  case 0
  then show ?case by simp
next
  case (Suc n)
  from Suc.prems show ?case
    by (auto simp: Part_cloneLoopWithPreheader_def Let_def remapInstructions_def
        remapInstructionsInLoop_FreshMD
        split: Option.bind_splits dest!: cloneLoopWithPreheader_FreshMD Suc.IH)
qed

lemma updatePreheaderDoms_FreshMD:
  "updatePreheaderDoms PC F = Some F' \<Longrightarrow> FreshMD F' = FreshMD F"
  by (induction PC F rule: updatePreheaderDoms.induct)
     (auto split: Option.bind_splits dest!: changeImmediateDominator_FreshMD)

lemma cloneLoops_FreshMD: "cloneLoops L PC F = Some (PC', F') \<Longrightarrow> FreshMD F' = FreshMD F"
  unfolding cloneLoops_def
  by (auto simp: replaceUsesOfWith_FreshMD split: Option.bind_splits if_splits
      dest!: cloneReversed_FreshMD updatePreheaderDoms_FreshMD)

lemma eraseUnused_FreshMD: "eraseUnused Is F = Some F' \<Longrightarrow> FreshMD F' = FreshMD F"
  by (induction Is arbitrary: F)
     (auto simp: replaceAllUsesWith_def split: option.splits Option.bind_splits if_splits
      dest!: eraseFromParent_FreshMD)

lemma PC_removeUnusedInsts_FreshMD:
  "PC_removeUnusedInsts PC F = Some F' \<Longrightarrow> FreshMD F' = FreshMD F"
  by (induction PC arbitrary: F)
     (auto simp: Part_removeUnusedInsts_def split: Option.bind_splits dest!: eraseUnused_FreshMD)

lemma splitPreheader_FreshMD: "splitPreheader PH F = Some F' \<Longrightarrow> FreshMD F' = FreshMD F"
  by (auto simp: splitPreheader_def split: Option.bind_splits if_splits dest!: SplitBlock_FreshMD)

lemma processLoop_FreshMD:
  assumes "processLoop Opts LAI L F = Some (True, F')"
  shows "\<exists>PH Deps PC4 F1 InstsFwd PtrsFwd PtrToPartition.
     getLoopPreheader F L = Some PH \<and>
     getInterestingDependences LAI = Some Deps \<and>
     splitPreheader PH F = Some F1 \<and>
     (if AddMemcheckForStoreToLoadElimination Opts
      then collectForwarding F1 (getMemoryInstructions LAI) Deps ([], [])
      else Some ([], [])) = Some (InstsFwd, PtrsFwd) \<and>
     computePartitionSetForPointers LAI (setupPartitionIdOnInstructions 0 PC4 Map.empty)
       (Pointers LAI) = Some PtrToPartition \<and>
     uncloned PC4 \<and>
     FreshMD F' =
       (if needsAnyChecking LAI PtrToPartition PtrsFwd \<and> InstsFwd \<noteq> [] then FreshMD F + 2
        else FreshMD F)"
proof -
  from processLoop_stages [OF assms] obtain PH Deps MID PC0 PC3 Merged PC4 PC5 F1 F2 F3
      InstsFwd PtrsFwd PtrToPartition where st:
    "getLoopPreheader F L = Some PH"
    "getInterestingDependences LAI = Some Deps"
    "MemoryInstructionDependences (getMemoryInstructions LAI) Deps = Some MID"
    "seedPartitions L MID 0 [] = Some PC0"
    "PC_populateUsedSet F
       (mergeBeforePopulating (DistributeNonIfConvertible Opts) F (blockNeedsPredication LAI)
          (seedDefsUsedOutside L (findDefsUsedOutsideOfLoop F L) PC0)) = Some PC3"
    "mergeToAvoidDuplicatedLoads F PC3 = Some (Merged, PC4)"
    "splitPreheader PH F = Some F1"
    "(if AddMemcheckForStoreToLoadElimination Opts
      then collectForwarding F1 (getMemoryInstructions LAI) Deps ([], [])
      else Some ([], [])) = Some (InstsFwd, PtrsFwd)"
    "computePartitionSetForPointers LAI (setupPartitionIdOnInstructions 0 PC4 Map.empty)
       (Pointers LAI) = Some PtrToPartition"
    "versionIfNeeded LAI L PtrToPartition PtrsFwd InstsFwd (findDefsUsedOutsideOfLoop F L) PC4 F1
       = Some F2"
    "cloneLoops L PC4 F2 = Some (PC5, F3)"
    "PC_removeUnusedInsts PC5 F3 = Some F'"
    by blast
  have "uncloned PC0"
    using seedPartitions_uncloned [OF st(4)] by simp
  then have "uncloned PC3"
    by (intro PC_populateUsedSet_uncloned [OF st(5)] mergeBeforePopulating_uncloned
        seedDefsUsedOutside_uncloned)
  then have u: "uncloned PC4"
    by (rule mergeToAvoidDuplicatedLoads_uncloned [OF st(6)])
  then have "\<forall>P \<in> set PC4. ClonedLoop P = None" by (simp add: uncloned_def)
  from versionIfNeeded_FreshMD [OF st(10) this] splitPreheader_FreshMD [OF st(7)]
    cloneLoops_FreshMD [OF st(11)] PC_removeUnusedInsts_FreshMD [OF st(12)]
  have "FreshMD F' =
       (if needsAnyChecking LAI PtrToPartition PtrsFwd \<and> InstsFwd \<noteq> [] then FreshMD F + 2
        else FreshMD F)"
    by simp
  with st u show ?thesis by blast
qed




subsection \<open>Pruning\<close>

lemma insertTerminators_props:
  "insertTerminators F Bs S = Some S1 \<Longrightarrow>
     set S \<subseteq> set S1 \<and> (\<forall>B \<in> set Bs. \<exists>T. getTerminator F B = Some T \<and> T \<in> set S1)"
proof (induction Bs arbitrary: S)
  case Nil
  then show ?case by simp
next
  case (Cons B Bs)
  then obtain T where t: "getTerminator F B = Some T"
    and r: "insertTerminators F Bs (set_insert T S) = Some S1"
    by (auto split: option.splits)
  from Cons.IH [OF r] t show ?case by (auto simp: set_set_insert)
qed

lemma visitOperands_mono: "set S \<subseteq> set (fst (visitOperands F L Vs (S, W)))"
  by (induction F L Vs "(S, W)" arbitrary: S W rule: visitOperands.induct)
     (auto simp: set_set_insert)

lemma closeUsedSet_mono:
  assumes "closeUsedSet F L S W = Some S'"
  shows "set S \<subseteq> set S'"
proof (rule closeUsedSet.raw_induct [where P = "\<lambda>F L S W S'. set S \<subseteq> set S'", OF _ assms])
  fix cl F L S W S'
  assume IH: "\<And>F L S W S'. cl F L S W = Some S' \<Longrightarrow> set S \<subseteq> set S'"
    and r: "(if W = [] then Some S
      else (case Insts F (last W) of
              None \<Rightarrow> None
            | Some i \<Rightarrow>
                cl F L
                  (fst (visitOperands F L (operands i) (S, butlast W)))
                  (snd (visitOperands F L (operands i) (S, butlast W))))) = Some S'"
  show "set S \<subseteq> set S'"
  proof (cases "W = []")
    case True
    with r show ?thesis by simp
  next
    case False
    with r obtain i where "Insts F (last W) = Some i"
      and c: "cl F L (fst (visitOperands F L (operands i) (S, butlast W)))
                  (snd (visitOperands F L (operands i) (S, butlast W))) = Some S'"
      by (auto split: option.splits)
    from IH [OF c] visitOperands_mono [of S F L "operands i" "butlast W"]
    show ?thesis by blast
  qed
qed

lemma populateUsedSet_props:
  assumes "populateUsedSet F P0 = Some P"
  shows "OrigLoop P = OrigLoop P0" "set (Set P0) \<subseteq> set (Set P)"
    "\<forall>B \<in> set (getBlocks F (OrigLoop P)). \<exists>T. getTerminator F B = Some T \<and> T \<in> set (Set P)"
proof -
  from assms obtain S1 S2 where
    1: "insertTerminators F (getBlocks F (OrigLoop P0)) (Set P0) = Some S1"
    and 2: "closeUsedSet F (OrigLoop P0) S1 S1 = Some S2"
    and 3: "P = P0\<lparr>Set := S2\<rparr>"
    by (auto simp: populateUsedSet_def split: Option.bind_splits)
  from 3 show "OrigLoop P = OrigLoop P0" by simp
  from insertTerminators_props [OF 1] closeUsedSet_mono [OF 2] 3
  show "set (Set P0) \<subseteq> set (Set P)" by auto
  from insertTerminators_props [OF 1] closeUsedSet_mono [OF 2] 3
  show "\<forall>B \<in> set (getBlocks F (OrigLoop P)). \<exists>T. getTerminator F B = Some T \<and> T \<in> set (Set P)"
    by fastforce
qed

lemma unused_no_branch:
  assumes t: "\<forall>B \<in> set (getBlocks F (OrigLoop P)). \<exists>T. getTerminator F B = Some T \<and> T \<in> set (Set P)"
    and w: "branchesTerminate F (OrigLoop P)"
  shows "\<forall>I \<in> set (unusedInsts F P). \<not> isa F Br I"
  using t w by (fastforce simp: unusedInsts_def loopInsts_def branchesTerminate_def)

lemma collectUnused_char:
  assumes "\<forall>I \<in> set Is. I \<notin> set (Set P) \<longrightarrow>
             (case getNewInst P I of None \<Rightarrow> False | Some N \<Rightarrow> \<not> isa F Br N)"
  shows "\<exists>News. collectUnused F P Is U = Some (U @ News) \<and>
           map Some News = map (getNewInst P) (filter (\<lambda>I. I \<notin> set (Set P)) Is) \<and>
           (\<forall>N \<in> set News. \<not> isa F Br N)"
  using assms
proof (induction Is arbitrary: U)
  case Nil
  then show ?case by simp
next
  case (Cons I Is)
  show ?case
  proof (cases "I \<in> set (Set P)")
    case True
    with Cons show ?thesis by simp
  next
    case False
    with Cons.prems obtain N where n: "getNewInst P I = Some N" "\<not> isa F Br N"
      by (auto split: option.splits)
    from Cons.IH [of "U @ [N]"] Cons.prems obtain News where
      "collectUnused F P Is (U @ [N]) = Some ((U @ [N]) @ News)"
      "map Some News = map (getNewInst P) (filter (\<lambda>I. I \<notin> set (Set P)) Is)"
      "\<forall>N \<in> set News. \<not> isa F Br N"
      by auto
    with False n show ?thesis
      by (intro exI [of _ "N # News"]) simp
  qed
qed

lemma replaceOperand_absent:
  "From \<notin> set (operands j) \<Longrightarrow> replaceOperand From To j = j"
proof -
  assume "From \<notin> set (operands j)"
  then have "map (\<lambda>v. if v = From then To else v) (operands j) = operands j"
    by (intro map_idI) auto
  then show ?thesis by (simp add: replaceOperand_def)
qed

lemma allInstructions_replaceAllUsesWith [simp]:
  "allInstructions (replaceAllUsesWith I V F) = allInstructions F"
proof -
  have "instsOf (replaceAllUsesWith I V F) = instsOf F"
    by (rule ext) (simp add: replaceAllUsesWith_def instsOf_def)
  then show ?thesis by (simp add: allInstructions_def replaceAllUsesWith_def)
qed

lemma use_empty_replaceAllUsesWith:
  "V \<noteq> VInst I \<Longrightarrow> use_empty (replaceAllUsesWith I V F) I"
  by (auto simp: use_empty_def users_def filter_empty_conv usesValue_def replaceAllUsesWith_def
      replaceOperand_def split: option.splits)

lemma eraseFromParent_props:
  assumes "eraseFromParent I F = Some F'"
  shows "Insts F' = (Insts F)(I := None)"
    "\<forall>J \<in> set (allInstructions F). J \<noteq> I \<longrightarrow> J \<in> set (allInstructions F')"
proof -
  from assms obtain i where i: "Insts F I = Some i"
    and F': "F' = F\<lparr>BBs := (BBs F)(parent i \<mapsto> removeAll I (instsOf F (parent i))),
                  Insts := (Insts F)(I := None)\<rparr>"
    by (auto simp: eraseFromParent_def split: option.splits)
  from F' show "Insts F' = (Insts F)(I := None)" by simp
  have "instsOf F' B = (if B = parent i then removeAll I (instsOf F B) else instsOf F B)" for B
    by (simp add: F' instsOf_def)
  then show "\<forall>J \<in> set (allInstructions F). J \<noteq> I \<longrightarrow> J \<in> set (allInstructions F')"
    by (auto simp: allInstructions_def F')
qed

lemma erase_step:
  assumes i: "Insts F I = Some i"
    and e: "eraseFromParent I
              (if \<not> use_empty F I then replaceAllUsesWith I (VUndef (ty i)) F else F) = Some F2"
  shows "Insts F2 I = None"
    "\<forall>K. K \<noteq> I \<longrightarrow> map_option ty (Insts F2 K) = map_option ty (Insts F K)"
    "\<forall>J \<in> set (allInstructions F). J \<noteq> I \<longrightarrow>
       J \<in> set (allInstructions F2) \<and>
       Insts F2 J = map_option (replaceOperand (VInst I) (VUndef (ty i))) (Insts F J)"
proof -
  let ?F1 = "if \<not> use_empty F I then replaceAllUsesWith I (VUndef (ty i)) F else F"
  note p = eraseFromParent_props [OF e]
  from p(1) show "Insts F2 I = None" by simp
  have "map_option ty (Insts ?F1 K) = map_option ty (Insts F K)" for K
    by (cases "Insts F K") (simp_all add: replaceAllUsesWith_def replaceOperand_def)
  with p(1) show "\<forall>K. K \<noteq> I \<longrightarrow> map_option ty (Insts F2 K) = map_option ty (Insts F K)"
    by simp
  have a: "allInstructions ?F1 = allInstructions F" by simp
  have "Insts ?F1 J = map_option (replaceOperand (VInst I) (VUndef (ty i))) (Insts F J)"
    if "J \<in> set (allInstructions F)" for J
  proof (cases "use_empty F I")
    case False
    then show ?thesis by (simp add: replaceAllUsesWith_def)
  next
    case True
    with that have "\<not> usesValue F (VInst I) J"
      by (auto simp: use_empty_def users_def filter_empty_conv)
    then have "map_option (replaceOperand (VInst I) (VUndef (ty i))) (Insts F J) = Insts F J"
      by (cases "Insts F J") (auto simp: usesValue_def replaceOperand_absent)
    with True show ?thesis by simp
  qed
  with p a show "\<forall>J \<in> set (allInstructions F). J \<noteq> I \<longrightarrow>
       J \<in> set (allInstructions F2) \<and>
       Insts F2 J = map_option (replaceOperand (VInst I) (VUndef (ty i))) (Insts F J)"
    by auto
qed

lemma eraseUnused_ConsD:
  assumes "eraseUnused (I # Is) F = Some F'"
  obtains i F2 where "Insts F I = Some i"
    "eraseFromParent I
       (if \<not> use_empty F I then replaceAllUsesWith I (VUndef (ty i)) F else F) = Some F2"
    "eraseUnused Is F2 = Some F'"
  using assms by (auto split: option.splits Option.bind_splits)

lemma eraseUnused_None:
  "eraseUnused Is F = Some F' \<Longrightarrow> Insts F J = None \<Longrightarrow> Insts F' J = None"
proof (induction Is arbitrary: F)
  case Nil
  then show ?case by simp
next
  case (Cons I Is)
  from Cons.prems(1) obtain i F2 where s: "Insts F I = Some i"
    "eraseFromParent I
       (if \<not> use_empty F I then replaceAllUsesWith I (VUndef (ty i)) F else F) = Some F2"
    "eraseUnused Is F2 = Some F'"
    by (rule eraseUnused_ConsD)
  from erase_step(2) [OF s(1,2)] s(1) Cons.prems(2) have "Insts F2 J = None"
    by (metis map_option_is_None option.distinct(1))
  with Cons.IH [OF s(3)] show ?case .
qed

lemma withUndef_step:
  assumes i: "Insts F I = Some i"
    and t: "\<forall>K. K \<noteq> I \<longrightarrow> map_option ty (Insts F2 K) = map_option ty (Insts F K)"
  shows "withUndef F2 Is (replaceOperand (VInst I) (VUndef (ty i)) j) = withUndef F (I # Is) j"
proof -
  have "undefFor F2 Is (if v = VInst I then VUndef (ty i) else v) = undefFor F (I # Is) v" for v
  proof (cases v)
    case (VInst K)
    show ?thesis
    proof (cases "K = I")
      case True
      with VInst i show ?thesis by (simp add: undefFor_def)
    next
      case False
      with t have "map_option ty (Insts F2 K) = map_option ty (Insts F K)" by simp
      with False VInst show ?thesis
        by (cases "Insts F2 K"; cases "Insts F K") (auto simp: undefFor_def)
    qed
  qed (simp_all add: undefFor_def)
  then show ?thesis by (simp add: withUndef_def replaceOperand_def comp_def)
qed

lemma withUndef_Nil: "withUndef F [] j = j"
proof -
  have "undefFor F [] v = v" for v by (cases v) (simp_all add: undefFor_def)
  then have "map (undefFor F []) (operands j) = operands j" by (intro map_idI) simp
  then show ?thesis by (simp add: withUndef_def)
qed

lemma eraseUnused_char:
  "eraseUnused Is F = Some F' \<Longrightarrow>
     \<forall>J \<in> set (allInstructions F).
       Insts F' J = (if J \<in> set Is then None else map_option (withUndef F Is) (Insts F J))"
proof (induction Is arbitrary: F)
  case Nil
  then show ?case by (simp add: withUndef_Nil option.map_ident cong: option.map_cong)
next
  case (Cons I Is)
  from Cons.prems(1) obtain i F2 where s: "Insts F I = Some i"
    "eraseFromParent I
       (if \<not> use_empty F I then replaceAllUsesWith I (VUndef (ty i)) F else F) = Some F2"
    "eraseUnused Is F2 = Some F'"
    by (rule eraseUnused_ConsD)
  note st = erase_step [OF s(1,2)]
  show ?case
  proof
    fix J
    assume J: "J \<in> set (allInstructions F)"
    show "Insts F' J =
        (if J \<in> set (I # Is) then None else map_option (withUndef F (I # Is)) (Insts F J))"
    proof (cases "J = I")
      case True
      with eraseUnused_None [OF s(3) st(1)] show ?thesis by simp
    next
      case False
      with st(3) J have m: "J \<in> set (allInstructions F2)"
        and e: "Insts F2 J = map_option (replaceOperand (VInst I) (VUndef (ty i))) (Insts F J)"
        by auto
      from Cons.IH [OF s(3)] m have
        "Insts F' J = (if J \<in> set Is then None else map_option (withUndef F2 Is) (Insts F2 J))"
        by simp
      with e False withUndef_step [OF s(1) st(2)] show ?thesis
        by (simp add: option.map_comp comp_def)
    qed
  qed
qed

lemma eraseUnused_total:
  "distinct Is \<Longrightarrow> \<forall>I \<in> set Is. Insts F I \<noteq> None \<Longrightarrow> \<exists>F'. eraseUnused Is F = Some F'"
proof (induction Is arbitrary: F)
  case Nil
  then show ?case by simp
next
  case (Cons I Is)
  then obtain i where i: "Insts F I = Some i" by auto
  let ?F1 = "if \<not> use_empty F I then replaceAllUsesWith I (VUndef (ty i)) F else F"
  from i have "Insts ?F1 I \<noteq> None" by (simp add: replaceAllUsesWith_def)
  then obtain F2 where e: "eraseFromParent I ?F1 = Some F2"
    by (auto simp: eraseFromParent_def split: option.splits)
  from erase_step(2) [OF i e] Cons.prems have "\<forall>K \<in> set Is. Insts F2 K \<noteq> None"
    by (metis distinct.simps(2) list.set_intros(2) map_option_is_None)
  with Cons.IH [of F2] Cons.prems(1) obtain F' where "eraseUnused Is F2 = Some F'" by auto
  with i e show ?case by simp
qed

lemma ex_populate:
  "map_option Set (populateUsedSet exF (add 25 (mkInstPartition 22 50 True)))
     = Some [22, 25, 31, 30, 27, 20, 23, 24, 21]"
  by code_simp

lemma ex_branchesTerminate: "branchesTerminate exF 50"
  by code_simp

lemma ex_chained_unused:
  "(case exChained of (PC, G) \<Rightarrow>
      list_all (\<lambda>I. \<not> isa G Br I) (unusedInsts G (hd PC)) \<and>
      clonesKeepKind G (hd PC) \<and>
      map (getNewInst (hd PC)) (unusedInsts G (hd PC)) = [Some 93, Some 94, Some 95] \<and>
      list_all (isa G Br) [97, 31])"
  by code_simp



end
